theory Spec2Isabelle
  imports Complex_Main "HOL-Library.Signed_Division" "HOL-Library.Multiset" "HOL-Library.Word"
begin

section \<open>Conventions of the embedding\<close>

text \<open>
  The two programs \<^verbatim>\<open>code/sieve_serial.cpp\<close> and \<^verbatim>\<open>code/sieve_openmp.cpp\<close> are embedded
  function by function and loop by loop.

  \<^item> Values of type \<^verbatim>\<open>int\<close> and \<^verbatim>\<open>long long\<close> are carried as mathematical integers
    (\<^typ>\<open>int\<close>). The two places where a value can leave the 32-bit range of \<^verbatim>\<open>int\<close>, the
    conversion \<^verbatim>\<open>(int)floor(sqrt((long double)N))\<close> and the sum \<^verbatim>\<open>limit + 1\<close>, are
    tested, and leaving the range is the fault \<open>Overflow\<close>. The section on 64-bit arithmetic
    relates the products and offsets of the inner loops to their two's-complement
    counterparts on \<^typ>\<open>64 word\<close>.
  \<^item> The operators \<^verbatim>\<open>/\<close> and \<^verbatim>\<open>%\<close> of C++ truncate towards zero: they are \<open>sdiv\<close> and
    \<open>smod\<close>.
  \<^item> A \<^verbatim>\<open>vector<bool>\<close> is a \<^typ>\<open>bool list\<close>; a mutated vector is passed on explicitly.
  \<^item> A call that never returns has the value \<open>None\<close>; a call that returns has the value
    \<open>Some r\<close>, where \<open>r\<close> is \<open>Inr v\<close> for a result \<open>v\<close> and \<open>Inl e\<close> for a fault \<open>e\<close>
    (an exception, or an operation whose behaviour the language leaves undefined).
  \<^item> Memory is not bounded: an allocation with a non-negative length succeeds.
  \<^item> The constant \<^verbatim>\<open>SEG_SIZE\<close> is a parameter \<open>W\<close> of the loops that use it;
    \<open>sieve_serial\<close> and \<open>sieve_openmp\<close> fix it to the value of the source.
  \<^item> The diagnostic output guarded by \<^verbatim>\<open>VERBOSE\<close>, and the counters that only feed it
    (\<^verbatim>\<open>segment_number\<close>, \<^verbatim>\<open>marks_for_p\<close>, \<^verbatim>\<open>segment_prime_count\<close>,
    \<^verbatim>\<open>printed_prime_steps\<close>, \<^verbatim>\<open>printed_mark_actions\<close>, \<^verbatim>\<open>tid\<close>), are left out: no
    returned value depends on them.
\<close>

datatype error = LengthError | DivisionByZero | OutOfBounds | Overflow

text \<open>The largest value of type \<^verbatim>\<open>int\<close> (32 bits).\<close>

definition INT_MAX :: int where
  "INT_MAX = 2147483647"

text \<open>The smallest value of type \<^verbatim>\<open>int\<close>.\<close>

definition INT_MIN :: int where
  "INT_MIN = - 2147483648"

type_synonym 'a outcome = "(error + 'a) option"

text \<open>\<^verbatim>\<open>static const long long SEG_SIZE = 1 << 20;\<close>\<close>

definition SEG_SIZE :: int where
  "SEG_SIZE = 2 ^ 20"

text \<open>
  \<^verbatim>\<open>vector<bool> v(n, b)\<close>: the length is converted to \<^verbatim>\<open>size_t\<close>, so a negative \<open>n\<close>
  becomes the length \<^verbatim>\<open>2^64 + n\<close>. The constructor allocates \<open>(length + 63) / 64\<close> words of 64
  bits, computed in \<^verbatim>\<open>size_t\<close>: for \<open>- 63 \<le> n < 0\<close> the sum wraps, no word is requested
  and the constructor returns a vector without storage (no element of it can be read or
  written: the empty list); for \<open>n < - 63\<close> the request cannot be met and the constructor
  throws.
\<close>

definition vector_bool :: "int \<Rightarrow> bool \<Rightarrow> error + bool list" where
  "vector_bool n b = (if n < - 63 then Inl LengthError else Inr (replicate (nat n) b))"

text \<open>
  The conversion \<^verbatim>\<open>(int)v\<close> of a floating-point value that is a whole number \<open>v\<close>: the
  behaviour is undefined when \<open>v\<close> is not a value of type \<^verbatim>\<open>int\<close>.
\<close>

definition int_cast :: "int \<Rightarrow> error + int" where
  "int_cast v = (if INT_MIN \<le> v \<and> v \<le> INT_MAX then Inr v else Inl Overflow)"

text \<open>
  \<^verbatim>\<open>floor(sqrt((long double)N))\<close>: the library calls are taken to return the exact
  integer square root, computed here digit by digit in base 2. The conversion of the
  result to \<^verbatim>\<open>int\<close> is \<open>int_cast\<close>, applied where the source applies it.
\<close>

fun sqrt_nat :: "nat \<Rightarrow> nat" where
  "sqrt_nat n =
     (if n < 4 then (if n = 0 then 0 else 1)
      else (let r = 2 * sqrt_nat (n div 4)
            in if (r + 1) * (r + 1) \<le> n then r + 1 else r))"

declare sqrt_nat.simps [simp del]

definition floor_sqrt :: "int \<Rightarrow> int" where
  "floor_sqrt N = int (sqrt_nat (nat N))"

section \<open>\<^verbatim>\<open>simple_sieve\<close> (both files)\<close>

text \<open>
  The inner loop
  \<^verbatim>\<open>for (long long j = 1LL * i * i; j <= limit; j += i) is_prime[(int)j] = false;\<close>
\<close>

partial_function (option) mark_multiples :: "int \<Rightarrow> int \<Rightarrow> int \<Rightarrow> bool list \<Rightarrow> bool list option" where
  "mark_multiples limit i j is_prime =
     (if j \<le> limit then mark_multiples limit i (j + i) (is_prime[nat j := False])
      else Some is_prime)"

declare mark_multiples.simps [code]

text \<open>
  The outer loop
  \<^verbatim>\<open>for (int i = 2; (long long)i * i <= limit; i++) { if (is_prime[i]) { ... } }\<close>
\<close>

partial_function (option) sieve_loop :: "int \<Rightarrow> int \<Rightarrow> bool list \<Rightarrow> bool list option" where
  "sieve_loop limit i is_prime =
     (if i * i \<le> limit then
        (if is_prime ! nat i then
           (case mark_multiples limit i (i * i) is_prime of
              None \<Rightarrow> None
            | Some is_prime' \<Rightarrow> sieve_loop limit (i + 1) is_prime')
         else sieve_loop limit (i + 1) is_prime)
      else Some is_prime)"

declare sieve_loop.simps [code]

text \<open>
  The collection loop
  \<^verbatim>\<open>for (int i = 2; i <= limit; i++) { if (is_prime[i]) primes.push_back(i); }\<close>
\<close>

function collect_primes :: "int \<Rightarrow> int \<Rightarrow> bool list \<Rightarrow> int list \<Rightarrow> int list" where
  "collect_primes limit i is_prime primes =
     (if i \<le> limit then
        collect_primes limit (i + 1) is_prime (if is_prime ! nat i then primes @ [i] else primes)
      else primes)"
  by pat_completeness auto
termination
  by (relation "measure (\<lambda>(limit, i, is_prime, primes). nat (limit + 1 - i))") auto

declare collect_primes.simps [simp del]

text \<open>
  \<^verbatim>\<open>vector<int> simple_sieve(int limit)\<close>. The length \<^verbatim>\<open>limit + 1\<close> of
  \<^verbatim>\<open>vector<bool> is_prime(limit + 1, true)\<close> is a sum of two \<^verbatim>\<open>int\<close>: it overflows when
  \<^verbatim>\<open>limit\<close> is \<open>INT_MAX\<close>. Below that the counters \<^verbatim>\<open>int i\<close> of the two loops stay in
  range: the first stops with \<open>i * i > limit\<close> (the product is taken in \<^verbatim>\<open>long long\<close>), the
  second with \<open>i = limit + 1\<close>.
\<close>

definition simple_sieve :: "int \<Rightarrow> int list outcome" where
  "simple_sieve limit =
     (if limit + 1 > INT_MAX then Some (Inl Overflow)
      else
        (case vector_bool (limit + 1) True of
           Inl e \<Rightarrow> Some (Inl e)
         | Inr is_prime0 \<Rightarrow>
             (let is_prime1 = (if limit \<ge> 0 then is_prime0[0 := False] else is_prime0);
                  is_prime2 = (if limit \<ge> 1 then is_prime1[1 := False] else is_prime1)
              in case sieve_loop limit 2 is_prime2 of
                   None \<Rightarrow> None
                 | Some is_prime \<Rightarrow> Some (Inr (collect_primes limit 2 is_prime [])))))"

section \<open>The segment computation\<close>

text \<open>
  Serial marking loop
  \<^verbatim>\<open>for (long long x = start; x <= high; x += 2 * p64) {
       long long idx = (x - low) / 2;
       if (idx >= 0 && idx < odd_count) { if (segment[idx]) { segment[idx] = false; ... } } }\<close>
\<close>

partial_function (option) mark_odd_multiples_serial ::
  "int \<Rightarrow> int \<Rightarrow> int \<Rightarrow> int \<Rightarrow> int \<Rightarrow> bool list \<Rightarrow> bool list option" where
  "mark_odd_multiples_serial p64 low high odd_count x segment =
     (if x \<le> high then
        (let idx = (x - low) sdiv 2
         in mark_odd_multiples_serial p64 low high odd_count (x + 2 * p64)
              (if idx \<ge> 0 \<and> idx < odd_count then
                 (if segment ! nat idx then segment[nat idx := False] else segment)
               else segment))
      else Some segment)"

declare mark_odd_multiples_serial.simps [code]

text \<open>
  OpenMP marking loop: the write is not guarded, so an index outside the buffer is a fault.
  \<^verbatim>\<open>for (long long x = start; x <= high; x += 2 * p64) {
       long long idx = (x - low) / 2;
       segment[(size_t)idx] = false; }\<close>
\<close>

partial_function (option) mark_odd_multiples_openmp ::
  "int \<Rightarrow> int \<Rightarrow> int \<Rightarrow> int \<Rightarrow> bool list \<Rightarrow> bool list outcome" where
  "mark_odd_multiples_openmp p64 low high x segment =
     (if x \<le> high then
        (let idx = (x - low) sdiv 2
         in if 0 \<le> idx \<and> idx < int (length segment)
            then mark_odd_multiples_openmp p64 low high (x + 2 * p64) (segment[nat idx := False])
            else Some (Inl OutOfBounds))
      else Some (Inr segment))"

declare mark_odd_multiples_openmp.simps [code]

text \<open>
  \<^verbatim>\<open>long long start = max(p2, ((low + p64 - 1) / p64) * p64);
     if (start % 2 == 0) start += p64;\<close>
\<close>

definition first_multiple :: "int \<Rightarrow> int \<Rightarrow> int" where
  "first_multiple low p64 = ((low + p64 - 1) sdiv p64) * p64"

definition first_odd_multiple :: "int \<Rightarrow> int \<Rightarrow> int" where
  "first_odd_multiple low p64 =
     (let start = max (p64 * p64) (first_multiple low p64)
      in if start smod 2 = 0 then start + p64 else start)"

text \<open>
  The loop over the base primes, serial file:
  \<^verbatim>\<open>for (int p : base_primes) {
       if (p == 2) continue;
       long long p64 = (long long)p;  long long p2 = p64 * p64;
       if (p2 > high) break;
       ... }\<close>
\<close>

fun mark_base_primes_serial ::
  "int \<Rightarrow> int \<Rightarrow> int \<Rightarrow> int list \<Rightarrow> bool list \<Rightarrow> bool list outcome" where
  "mark_base_primes_serial low high odd_count [] segment = Some (Inr segment)"
| "mark_base_primes_serial low high odd_count (p # base_primes) segment =
     (if p = 2 then mark_base_primes_serial low high odd_count base_primes segment
      else if p * p > high then Some (Inr segment)
      else if p = 0 then Some (Inl DivisionByZero)
      else
        (case mark_odd_multiples_serial p low high odd_count (first_odd_multiple low p) segment of
           None \<Rightarrow> None
         | Some segment' \<Rightarrow> mark_base_primes_serial low high odd_count base_primes segment'))"

text \<open>The same loop in the OpenMP file.\<close>

fun mark_base_primes_openmp ::
  "int \<Rightarrow> int \<Rightarrow> int list \<Rightarrow> bool list \<Rightarrow> bool list outcome" where
  "mark_base_primes_openmp low high [] segment = Some (Inr segment)"
| "mark_base_primes_openmp low high (p # base_primes) segment =
     (if p = 2 then mark_base_primes_openmp low high base_primes segment
      else if p * p > high then Some (Inr segment)
      else if p = 0 then Some (Inl DivisionByZero)
      else
        (case mark_odd_multiples_openmp p low high (first_odd_multiple low p) segment of
           None \<Rightarrow> None
         | Some (Inl e) \<Rightarrow> Some (Inl e)
         | Some (Inr segment') \<Rightarrow> mark_base_primes_openmp low high base_primes segment'))"

text \<open>
  The counting loop of both files
  \<^verbatim>\<open>for (long long i = 0; i < odd_count; i++) {
       if (segment[i]) { long long num = low + 2 * i; if (num <= N) count++; } }\<close>
\<close>

function count_survivors :: "int \<Rightarrow> int \<Rightarrow> int \<Rightarrow> bool list \<Rightarrow> int \<Rightarrow> int \<Rightarrow> int" where
  "count_survivors N low odd_count segment i cnt =
     (if i < odd_count then
        count_survivors N low odd_count segment (i + 1)
          (if segment ! nat i then (if low + 2 * i \<le> N then cnt + 1 else cnt) else cnt)
      else cnt)"
  by pat_completeness auto
termination
  by (relation "measure (\<lambda>(N, low, odd_count, segment, i, cnt). nat (odd_count - i))") auto

declare count_survivors.simps [simp del]

section \<open>Segment bounds\<close>

text \<open>
  \<^verbatim>\<open>long long low  = first_value + seg_id * SEG_SIZE;\<close> with \<^verbatim>\<open>first_value = 3\<close>
  (OpenMP file), and \<^verbatim>\<open>long long high = min(low + SEG_SIZE - 1, N);\<close> (both files).
\<close>

definition segment_low :: "int \<Rightarrow> int \<Rightarrow> int" where
  "segment_low W seg_id = 3 + seg_id * W"

definition segment_high :: "int \<Rightarrow> int \<Rightarrow> int \<Rightarrow> int" where
  "segment_high W N low = min (low + W - 1) N"

section \<open>\<^verbatim>\<open>sieve_serial\<close>\<close>

text \<open>
  The body of the segment loop after the odd adjustment and the skip test: allocate the
  buffer, mark, count into \<^verbatim>\<open>prime_count\<close>.
\<close>

definition serial_segment :: "int \<Rightarrow> int list \<Rightarrow> int \<Rightarrow> int \<Rightarrow> int \<Rightarrow> int outcome" where
  "serial_segment N base_primes low high prime_count =
     (let odd_count = ((high - low) sdiv 2) + 1
      in case vector_bool odd_count True of
           Inl e \<Rightarrow> Some (Inl e)
         | Inr segment0 \<Rightarrow>
             (case mark_base_primes_serial low high odd_count base_primes segment0 of
                None \<Rightarrow> None
              | Some (Inl e) \<Rightarrow> Some (Inl e)
              | Some (Inr segment) \<Rightarrow>
                  Some (Inr (count_survivors N low odd_count segment 0 prime_count))))"

text \<open>
  \<^verbatim>\<open>for (long long low = 3; low <= N; low += SEG_SIZE) {
       long long high = min(low + SEG_SIZE - 1, N);
       if (low % 2 == 0) low++;
       if (high < low) continue;
       ... }\<close>
  The adjusted \<^verbatim>\<open>low\<close> is the loop variable itself, so the increment of the loop header
  starts from it. The segment width is a parameter \<open>W\<close>.
\<close>

partial_function (option) serial_segments ::
  "int \<Rightarrow> int \<Rightarrow> int list \<Rightarrow> int \<Rightarrow> int \<Rightarrow> int outcome" where
  "serial_segments W N base_primes low prime_count =
     (if low \<le> N then
        (let high = segment_high W N low;
             low' = (if low smod 2 = 0 then low + 1 else low)
         in if high < low' then serial_segments W N base_primes (low' + W) prime_count
            else
              (case serial_segment N base_primes low' high prime_count of
                 None \<Rightarrow> None
               | Some (Inl e) \<Rightarrow> Some (Inl e)
               | Some (Inr prime_count') \<Rightarrow>
                   serial_segments W N base_primes (low' + W) prime_count'))
      else Some (Inr prime_count))"

declare serial_segments.simps [code]

definition sieve_serial_W :: "int \<Rightarrow> int \<Rightarrow> int outcome" where
  "sieve_serial_W W N =
     (if N < 2 then Some (Inr 0)
      else
        (case int_cast (floor_sqrt N) of
           Inl e \<Rightarrow> Some (Inl e)
         | Inr limit \<Rightarrow>
             (case simple_sieve limit of
                None \<Rightarrow> None
              | Some (Inl e) \<Rightarrow> Some (Inl e)
              | Some (Inr base_primes) \<Rightarrow> serial_segments W N base_primes 3 1)))"

definition sieve_serial :: "int \<Rightarrow> int outcome" where
  "sieve_serial N = sieve_serial_W SEG_SIZE N"

section \<open>\<^verbatim>\<open>sieve_openmp\<close>\<close>

text \<open>
  The body of the parallel loop for one \<^verbatim>\<open>seg_id\<close>; its value is \<^verbatim>\<open>local_count\<close>, and
  0 for a skipped segment (\<^verbatim>\<open>continue\<close>).
\<close>

definition openmp_segment :: "int \<Rightarrow> int \<Rightarrow> int list \<Rightarrow> int \<Rightarrow> int outcome" where
  "openmp_segment W N base_primes seg_id =
     (let low0 = segment_low W seg_id;
          high = segment_high W N low0;
          low = (if low0 smod 2 = 0 then low0 + 1 else low0)
      in if low > high then Some (Inr 0)
         else
           (let odd_count = ((high - low) sdiv 2) + 1
            in case vector_bool odd_count True of
                 Inl e \<Rightarrow> Some (Inl e)
               | Inr segment0 \<Rightarrow>
                   (case mark_base_primes_openmp low high base_primes segment0 of
                      None \<Rightarrow> None
                    | Some (Inl e) \<Rightarrow> Some (Inl e)
                    | Some (Inr segment) \<Rightarrow>
                        Some (Inr (count_survivors N low odd_count segment 0 0)))))"

text \<open>
  \<^verbatim>\<open>#pragma omp parallel for schedule(dynamic) reduction(+:total_count)\<close>:
  every thread of the team owns a private copy of \<^verbatim>\<open>total_count\<close>, initialised to 0, and
  runs the iterations it claims, one after the other, adding each \<^verbatim>\<open>local_count\<close> to its
  copy. An iteration writes only to the buffer it allocates itself and only reads
  \<^verbatim>\<open>base_primes\<close>, \<^verbatim>\<open>N\<close> and \<^verbatim>\<open>seg_id\<close>, so its \<^verbatim>\<open>local_count\<close> does not depend on what other
  threads do at the same time. Which thread claims which iteration is not determined by
  the program: it is the parameter \<open>schedule\<close>, one list of segment numbers per thread, in
  the order the thread runs them.
\<close>

fun openmp_thread :: "int \<Rightarrow> int \<Rightarrow> int list \<Rightarrow> int list \<Rightarrow> int \<Rightarrow> int outcome" where
  "openmp_thread W N base_primes [] total_count = Some (Inr total_count)"
| "openmp_thread W N base_primes (seg_id # seg_ids) total_count =
     (case openmp_segment W N base_primes seg_id of
        None \<Rightarrow> None
      | Some (Inl e) \<Rightarrow> Some (Inl e)
      | Some (Inr local_count) \<Rightarrow>
          openmp_thread W N base_primes seg_ids (total_count + local_count))"

text \<open>
  At the end of the region the private copies are added to the original variable, in
  the order of the list \<open>schedule\<close>.
\<close>

fun openmp_reduction :: "int \<Rightarrow> int \<Rightarrow> int list \<Rightarrow> int list list \<Rightarrow> int \<Rightarrow> int outcome" where
  "openmp_reduction W N base_primes [] total_count = Some (Inr total_count)"
| "openmp_reduction W N base_primes (seg_ids # schedule) total_count =
     (case openmp_thread W N base_primes seg_ids 0 of
        None \<Rightarrow> None
      | Some (Inl e) \<Rightarrow> Some (Inl e)
      | Some (Inr private_count) \<Rightarrow>
          openmp_reduction W N base_primes schedule (total_count + private_count))"

text \<open>\<^verbatim>\<open>long long num_segments = (total_numbers + SEG_SIZE - 1) / SEG_SIZE;\<close>\<close>

definition num_segments :: "int \<Rightarrow> int \<Rightarrow> int" where
  "num_segments W N = ((N - 3 + 1) + W - 1) sdiv W"

definition sieve_openmp_W :: "int \<Rightarrow> int \<Rightarrow> int \<Rightarrow> int list list \<Rightarrow> int outcome" where
  "sieve_openmp_W W N num_threads schedule =
     (if N < 2 then Some (Inr 0)
      else
        (case int_cast (floor_sqrt N) of
           Inl e \<Rightarrow> Some (Inl e)
         | Inr limit \<Rightarrow>
             (case simple_sieve limit of
                None \<Rightarrow> None
              | Some (Inl e) \<Rightarrow> Some (Inl e)
              | Some (Inr base_primes) \<Rightarrow>
                  (if 3 > N then Some (Inr 1)
                   else if W = 0 then Some (Inl DivisionByZero)
                   else openmp_reduction W N base_primes schedule 1))))"

definition sieve_openmp :: "int \<Rightarrow> int \<Rightarrow> int list list \<Rightarrow> int outcome" where
  "sieve_openmp N num_threads schedule = sieve_openmp_W SEG_SIZE N num_threads schedule"

text \<open>
  The schedules the construct allows for the loop
  \<^verbatim>\<open>for (long long seg_id = 0; seg_id < num_segments; seg_id++)\<close>: a team of at least one and
  at most \<open>num_threads\<close> threads (\<^verbatim>\<open>omp_set_num_threads(num_threads)\<close>), and every iteration
  \<open>0 \<le> seg_id < n\<close> run exactly once.
\<close>

definition valid_schedule :: "int \<Rightarrow> int \<Rightarrow> int list list \<Rightarrow> bool" where
  "valid_schedule num_threads n schedule \<longleftrightarrow>
     1 \<le> int (length schedule) \<and> int (length schedule) \<le> num_threads \<and>
     mset (concat schedule) = mset [0..n - 1]"

section \<open>The same loops with the three redundant tests made optional\<close>

text \<open>
  Copies of the counting loop, the segment loop and the parallel loop body in which the
  odd adjustment (\<open>adjust\<close>), the skip of a degenerate segment (\<open>skip\<close>) and the test
  \<^verbatim>\<open>num <= N\<close> (\<open>guard\<close>) are each present only when their switch is on. With the
  three switches on they are the loops of the source; a switch that is off is the
  source with that test deleted.
\<close>

function count_survivors_opt ::
  "bool \<Rightarrow> int \<Rightarrow> int \<Rightarrow> int \<Rightarrow> bool list \<Rightarrow> int \<Rightarrow> int \<Rightarrow> int" where
  "count_survivors_opt guard N low odd_count segment i cnt =
     (if i < odd_count then
        count_survivors_opt guard N low odd_count segment (i + 1)
          (if segment ! nat i then (if \<not> guard \<or> low + 2 * i \<le> N then cnt + 1 else cnt)
           else cnt)
      else cnt)"
  by pat_completeness auto
termination
  by (relation "measure (\<lambda>(guard, N, low, odd_count, segment, i, cnt). nat (odd_count - i))") auto

declare count_survivors_opt.simps [simp del]

definition serial_segment_opt ::
  "bool \<Rightarrow> int \<Rightarrow> int list \<Rightarrow> int \<Rightarrow> int \<Rightarrow> int \<Rightarrow> int outcome" where
  "serial_segment_opt guard N base_primes low high prime_count =
     (let odd_count = ((high - low) sdiv 2) + 1
      in case vector_bool odd_count True of
           Inl e \<Rightarrow> Some (Inl e)
         | Inr segment0 \<Rightarrow>
             (case mark_base_primes_serial low high odd_count base_primes segment0 of
                None \<Rightarrow> None
              | Some (Inl e) \<Rightarrow> Some (Inl e)
              | Some (Inr segment) \<Rightarrow>
                  Some (Inr (count_survivors_opt guard N low odd_count segment 0 prime_count))))"

partial_function (option) serial_segments_opt ::
  "bool \<Rightarrow> bool \<Rightarrow> bool \<Rightarrow> int \<Rightarrow> int \<Rightarrow> int list \<Rightarrow> int \<Rightarrow> int \<Rightarrow> int outcome" where
  "serial_segments_opt adjust skip guard W N base_primes low prime_count =
     (if low \<le> N then
        (let high = segment_high W N low;
             low' = (if adjust \<and> low smod 2 = 0 then low + 1 else low)
         in if skip \<and> high < low'
            then serial_segments_opt adjust skip guard W N base_primes (low' + W) prime_count
            else
              (case serial_segment_opt guard N base_primes low' high prime_count of
                 None \<Rightarrow> None
               | Some (Inl e) \<Rightarrow> Some (Inl e)
               | Some (Inr prime_count') \<Rightarrow>
                   serial_segments_opt adjust skip guard W N base_primes (low' + W) prime_count'))
      else Some (Inr prime_count))"

declare serial_segments_opt.simps [code]

definition sieve_serial_opt :: "bool \<Rightarrow> bool \<Rightarrow> bool \<Rightarrow> int \<Rightarrow> int \<Rightarrow> int outcome" where
  "sieve_serial_opt adjust skip guard W N =
     (if N < 2 then Some (Inr 0)
      else
        (case int_cast (floor_sqrt N) of
           Inl e \<Rightarrow> Some (Inl e)
         | Inr limit \<Rightarrow>
             (case simple_sieve limit of
                None \<Rightarrow> None
              | Some (Inl e) \<Rightarrow> Some (Inl e)
              | Some (Inr base_primes) \<Rightarrow>
                  serial_segments_opt adjust skip guard W N base_primes 3 1)))"

definition openmp_segment_opt ::
  "bool \<Rightarrow> bool \<Rightarrow> bool \<Rightarrow> int \<Rightarrow> int \<Rightarrow> int list \<Rightarrow> int \<Rightarrow> int outcome" where
  "openmp_segment_opt adjust skip guard W N base_primes seg_id =
     (let low0 = segment_low W seg_id;
          high = segment_high W N low0;
          low = (if adjust \<and> low0 smod 2 = 0 then low0 + 1 else low0)
      in if skip \<and> low > high then Some (Inr 0)
         else
           (let odd_count = ((high - low) sdiv 2) + 1
            in case vector_bool odd_count True of
                 Inl e \<Rightarrow> Some (Inl e)
               | Inr segment0 \<Rightarrow>
                   (case mark_base_primes_openmp low high base_primes segment0 of
                      None \<Rightarrow> None
                    | Some (Inl e) \<Rightarrow> Some (Inl e)
                    | Some (Inr segment) \<Rightarrow>
                        Some (Inr (count_survivors_opt guard N low odd_count segment 0 0)))))"

fun openmp_thread_opt ::
  "bool \<Rightarrow> bool \<Rightarrow> bool \<Rightarrow> int \<Rightarrow> int \<Rightarrow> int list \<Rightarrow> int list \<Rightarrow> int \<Rightarrow> int outcome" where
  "openmp_thread_opt adjust skip guard W N base_primes [] total_count = Some (Inr total_count)"
| "openmp_thread_opt adjust skip guard W N base_primes (seg_id # seg_ids) total_count =
     (case openmp_segment_opt adjust skip guard W N base_primes seg_id of
        None \<Rightarrow> None
      | Some (Inl e) \<Rightarrow> Some (Inl e)
      | Some (Inr local_count) \<Rightarrow>
          openmp_thread_opt adjust skip guard W N base_primes seg_ids (total_count + local_count))"

fun openmp_reduction_opt ::
  "bool \<Rightarrow> bool \<Rightarrow> bool \<Rightarrow> int \<Rightarrow> int \<Rightarrow> int list \<Rightarrow> int list list \<Rightarrow> int \<Rightarrow> int outcome" where
  "openmp_reduction_opt adjust skip guard W N base_primes [] total_count = Some (Inr total_count)"
| "openmp_reduction_opt adjust skip guard W N base_primes (seg_ids # schedule) total_count =
     (case openmp_thread_opt adjust skip guard W N base_primes seg_ids 0 of
        None \<Rightarrow> None
      | Some (Inl e) \<Rightarrow> Some (Inl e)
      | Some (Inr private_count) \<Rightarrow>
          openmp_reduction_opt adjust skip guard W N base_primes schedule
            (total_count + private_count))"

definition sieve_openmp_opt ::
  "bool \<Rightarrow> bool \<Rightarrow> bool \<Rightarrow> int \<Rightarrow> int \<Rightarrow> int \<Rightarrow> int list list \<Rightarrow> int outcome" where
  "sieve_openmp_opt adjust skip guard W N num_threads schedule =
     (if N < 2 then Some (Inr 0)
      else
        (case int_cast (floor_sqrt N) of
           Inl e \<Rightarrow> Some (Inl e)
         | Inr limit \<Rightarrow>
             (case simple_sieve limit of
                None \<Rightarrow> None
              | Some (Inl e) \<Rightarrow> Some (Inl e)
              | Some (Inr base_primes) \<Rightarrow>
                  (if 3 > N then Some (Inr 1)
                   else if W = 0 then Some (Inl DivisionByZero)
                   else openmp_reduction_opt adjust skip guard W N base_primes schedule 1))))"

section \<open>The segments the serial loop visits\<close>

text \<open>
  The header of the segment loop of the serial file with its first two statements,
  \<^verbatim>\<open>for (long long low = 3; low <= N; low += SEG_SIZE) {
       long long high = min(low + SEG_SIZE - 1, N);
       if (low % 2 == 0) low++;
       ... }\<close>
  and, in place of the body, a record of the pair \<open>(low, high)\<close> the iteration was
  entered with: called with \<open>low = 3\<close> and the empty list it returns the raw segments in
  the order the loop visits them.
\<close>

partial_function (option) serial_plan ::
  "int \<Rightarrow> int \<Rightarrow> int \<Rightarrow> (int \<times> int) list \<Rightarrow> (int \<times> int) list option" where
  "serial_plan W N low plan =
     (if low \<le> N then
        (let high = segment_high W N low;
             low' = (if low smod 2 = 0 then low + 1 else low)
         in serial_plan W N (low' + W) (plan @ [(low, high)]))
      else Some plan)"

declare serial_plan.simps [code]

section \<open>The marking loop without early termination\<close>

text \<open>
  The loop over the base primes with the \<^verbatim>\<open>break\<close> deleted: every base prime other
  than 2 is processed. The early-termination rule compares the loops above with these.
\<close>

fun mark_all_base_primes_serial ::
  "int \<Rightarrow> int \<Rightarrow> int \<Rightarrow> int list \<Rightarrow> bool list \<Rightarrow> bool list outcome" where
  "mark_all_base_primes_serial low high odd_count [] segment = Some (Inr segment)"
| "mark_all_base_primes_serial low high odd_count (p # base_primes) segment =
     (if p = 2 then mark_all_base_primes_serial low high odd_count base_primes segment
      else if p = 0 then Some (Inl DivisionByZero)
      else
        (case mark_odd_multiples_serial p low high odd_count (first_odd_multiple low p) segment of
           None \<Rightarrow> None
         | Some segment' \<Rightarrow> mark_all_base_primes_serial low high odd_count base_primes segment'))"

fun mark_all_base_primes_openmp ::
  "int \<Rightarrow> int \<Rightarrow> int list \<Rightarrow> bool list \<Rightarrow> bool list outcome" where
  "mark_all_base_primes_openmp low high [] segment = Some (Inr segment)"
| "mark_all_base_primes_openmp low high (p # base_primes) segment =
     (if p = 2 then mark_all_base_primes_openmp low high base_primes segment
      else if p = 0 then Some (Inl DivisionByZero)
      else
        (case mark_odd_multiples_openmp p low high (first_odd_multiple low p) segment of
           None \<Rightarrow> None
         | Some (Inl e) \<Rightarrow> Some (Inl e)
         | Some (Inr segment') \<Rightarrow> mark_all_base_primes_openmp low high base_primes segment'))"

section \<open>The arithmetic of the inner loops on 64-bit integers\<close>

text \<open>
  The products and offsets of the marking and counting loops, as the machine computes
  them: \<^verbatim>\<open>int\<close> is a 32-bit word, \<^verbatim>\<open>long long\<close> a 64-bit word, both read in two's
  complement; \<open>+\<close>, \<open>-\<close> and \<open>*\<close> wrap around; division truncates towards zero.
\<close>

type_synonym int32 = "32 word"
type_synonym int64 = "64 word"

definition in_int64 :: "int \<Rightarrow> bool" where
  "in_int64 v \<longleftrightarrow> - (2 ^ 63) \<le> v \<and> v < 2 ^ 63"

definition sdiv64 :: "int64 \<Rightarrow> int64 \<Rightarrow> int64" where
  "sdiv64 a b = word_of_int (sint a sdiv sint b)"

text \<open>\<^verbatim>\<open>long long p64 = (long long)p;\<close>\<close>

definition p64_w :: "int32 \<Rightarrow> int64" where
  "p64_w p = scast p"

text \<open>\<^verbatim>\<open>long long p2 = p64 * p64;\<close>\<close>

definition p2_w :: "int64 \<Rightarrow> int64" where
  "p2_w p64 = p64 * p64"

text \<open>\<^verbatim>\<open>((low + p64 - 1) / p64) * p64\<close>\<close>

definition first_multiple_w :: "int64 \<Rightarrow> int64 \<Rightarrow> int64" where
  "first_multiple_w low p64 = sdiv64 (low + p64 - 1) p64 * p64"

text \<open>\<^verbatim>\<open>x += 2 * p64\<close>\<close>

definition stride_w :: "int64 \<Rightarrow> int64" where
  "stride_w p64 = 2 * p64"

text \<open>\<^verbatim>\<open>long long idx = (x - low) / 2;\<close>\<close>

definition idx_w :: "int64 \<Rightarrow> int64 \<Rightarrow> int64" where
  "idx_w x low = sdiv64 (x - low) 2"

text \<open>\<^verbatim>\<open>long long num = low + 2 * i;\<close>\<close>

definition num_w :: "int64 \<Rightarrow> int64 \<Rightarrow> int64" where
  "num_w low i = low + 2 * i"

section \<open>Primes\<close>

definition prime_int :: "int \<Rightarrow> bool" where
  "prime_int p \<longleftrightarrow> 2 \<le> p \<and> (\<forall>d\<in>{2..<p}. \<not> d dvd p)"

text \<open>The ascending list of the primes up to \<open>n\<close>.\<close>

definition primes_upto :: "int \<Rightarrow> int list" where
  "primes_upto n = filter prime_int [2..n]"

text \<open>The number of primes in \<open>[a, b]\<close>, and in \<open>[2, N]\<close>.\<close>

definition primes_between :: "int \<Rightarrow> int \<Rightarrow> int" where
  "primes_between a b = int (card {x \<in> {a..b}. prime_int x})"

definition prime_count :: "int \<Rightarrow> int" where
  "prime_count N = int (card {p \<in> {2..N}. prime_int p})"

text \<open>A base-prime sequence for \<open>N\<close>: ascending, exactly the primes up to \<open>\<lfloor>\<surd>N\<rfloor>\<close>.\<close>

definition base_primes_of :: "int \<Rightarrow> int list \<Rightarrow> bool" where
  "base_primes_of N ps \<longleftrightarrow> sorted ps \<and> set ps = {p. prime_int p \<and> p \<le> floor_sqrt N}"

section \<open>Loop invariants\<close>

text \<open>
  After the outer loop of \<^verbatim>\<open>simple_sieve\<close> has handled every \<open>d < i\<close>, position \<open>n\<close> is
  still set exactly if no such \<open>d\<close> with \<open>d\<^sup>2 \<le> n\<close> divides \<open>n\<close>.
\<close>

definition sieve_inv :: "int \<Rightarrow> int \<Rightarrow> bool list \<Rightarrow> bool" where
  "sieve_inv limit i is_prime \<longleftrightarrow>
     length is_prime = nat (limit + 1) \<and>
     (\<forall>n. 0 \<le> n \<and> n \<le> limit \<longrightarrow>
        is_prime ! nat n = (2 \<le> n \<and> \<not> (\<exists>d. 2 \<le> d \<and> d < i \<and> d * d \<le> n \<and> d dvd n)))"

text \<open>The number \<open>x\<close> is struck out by one of the odd primes in \<open>P\<close>.\<close>

definition marks :: "int set \<Rightarrow> int \<Rightarrow> bool" where
  "marks P x \<longleftrightarrow> (\<exists>p\<in>P. p \<noteq> 2 \<and> p dvd x \<and> p * p \<le> x)"

text \<open>Trial division: no \<open>e \<ge> d\<close> with \<open>e\<^sup>2 \<le> n\<close> divides \<open>n\<close>.\<close>

function no_divisor_from :: "int \<Rightarrow> int \<Rightarrow> bool" where
  "no_divisor_from d n =
     (if 0 < d \<and> d * d \<le> n then \<not> d dvd n \<and> no_divisor_from (d + 1) n else True)"
  by pat_completeness auto
termination
proof (relation "measure (\<lambda>(d, n). nat (n + 1 - d))")
  show "wf (measure (\<lambda>(d, n). nat (n + 1 - d)))" by simp
next
  fix d n :: int
  assume a: "0 < d \<and> d * d \<le> n"
  then have "1 \<le> d" by simp
  then have "d \<le> d * d" using mult_left_mono[of 1 d d] by simp
  then have "d \<le> n" using a by linarith
  then show "((d + 1, n), d, n) \<in> measure (\<lambda>(d, n). nat (n + 1 - d))" by simp
qed

declare no_divisor_from.simps [simp del]

section \<open>Counting primes by Legendre's formula\<close>

text \<open>
  The number of integers in \<open>[1, y]\<close> that none of the primes of a descending list
  divides, by the recurrence \<open>\<phi>(y, p # ps) = \<phi>(y, ps) - \<phi>(y div p, ps)\<close>. It serves to
  evaluate the prime count at one million.
\<close>

fun legendre_phi :: "int \<Rightarrow> int list \<Rightarrow> int" where
  "legendre_phi y [] = y"
| "legendre_phi y (p # ps) =
     (if y \<le> p then (if 1 \<le> y then 1 else 0)
      else legendre_phi y ps - legendre_phi (y div p) ps)"

text \<open>The integers of \<open>[1, y]\<close> that no element of \<open>P\<close> divides.\<close>

definition unsieved :: "int \<Rightarrow> int set \<Rightarrow> int set" where
  "unsieved y P = {n \<in> {1..y}. \<not> (\<exists>q\<in>P. q dvd n)}"

text \<open>A descending list of primes that holds every prime below each of its elements.\<close>

definition primes_below :: "int list \<Rightarrow> bool" where
  "primes_below ps \<longleftrightarrow>
     sorted_wrt (>) ps \<and> (\<forall>q. q \<in> set ps \<longleftrightarrow> prime_int q \<and> (\<exists>p\<in>set ps. q \<le> p))"

section \<open>Division, remainder and square root\<close>

lemma sdiv_nonneg: "0 \<le> a \<Longrightarrow> 0 < b \<Longrightarrow> (a::int) sdiv b = a div b"
  by (simp add: signed_divide_int_def sgn_if)

lemma smod_2_eq_0_iff: "(a::int) smod 2 = 0 \<longleftrightarrow> even a"
  by (auto simp add: signed_modulo_int_def sgn_if even_iff_mod_2_eq_zero)

lemma sqrt_nat_bounds: "sqrt_nat n * sqrt_nat n \<le> n \<and> n < (sqrt_nat n + 1) * (sqrt_nat n + 1)"
proof (induction n rule: sqrt_nat.induct)
  case (1 n)
  show ?case
  proof (cases "n < 4")
    case True
    then show ?thesis by (subst (1 2 3 4) sqrt_nat.simps) auto
  next
    case False
    define s where "s = sqrt_nat (n div 4)"
    have ih: "s * s \<le> n div 4" "n div 4 < (s + 1) * (s + 1)"
      using 1 False by (simp_all add: s_def)
    have lo: "(2 * s) * (2 * s) \<le> n" using ih(1) by (simp add: algebra_simps) 
    have "n div 4 + 1 \<le> (s + 1) * (s + 1)" using ih(2) by simp
    then have "4 * (n div 4 + 1) \<le> 4 * ((s + 1) * (s + 1))" by simp
    then have hi: "n < (2 * s + 2) * (2 * s + 2)" by (simp add: algebra_simps) 
    have eq: "sqrt_nat n = (if (2 * s + 1) * (2 * s + 1) \<le> n then 2 * s + 1 else 2 * s)"
      using False by (subst sqrt_nat.simps) (simp add: s_def Let_def)
    show ?thesis using lo hi unfolding eq by (auto simp: algebra_simps)
  qed
qed

lemma floor_sqrt_bounds:
  assumes "0 \<le> N"
  shows "0 \<le> floor_sqrt N" "floor_sqrt N * floor_sqrt N \<le> N" "N < (floor_sqrt N + 1) * (floor_sqrt N + 1)"
proof -
  let ?s = "sqrt_nat (nat N)"
  have b: "?s * ?s \<le> nat N" "nat N < (?s + 1) * (?s + 1)" using sqrt_nat_bounds by auto
  show "0 \<le> floor_sqrt N" by (simp add: floor_sqrt_def)
  have "int (?s * ?s) \<le> int (nat N)" using b(1) by (simp only: of_nat_le_iff)
  then show "floor_sqrt N * floor_sqrt N \<le> N" using assms by (simp add: floor_sqrt_def)
  have "int (nat N) < int ((?s + 1) * (?s + 1))" using b(2) by (simp only: of_nat_less_iff)
  then show "N < (floor_sqrt N + 1) * (floor_sqrt N + 1)" using assms by (simp add: floor_sqrt_def algebra_simps)
qed

lemma le_floor_sqrt_iff:
  assumes "0 \<le> N" "0 \<le> d"
  shows "d \<le> floor_sqrt N \<longleftrightarrow> d * d \<le> N"
proof
  assume "d \<le> floor_sqrt N"
  then have "d * d \<le> floor_sqrt N * floor_sqrt N" using assms by (simp add: mult_mono)
  then show "d * d \<le> N" using floor_sqrt_bounds(2)[OF assms(1)] by linarith
next
  assume h: "d * d \<le> N"
  show "d \<le> floor_sqrt N"
  proof (rule ccontr)
    assume "\<not> d \<le> floor_sqrt N"
    then have "floor_sqrt N + 1 \<le> d" by simp
    then have "(floor_sqrt N + 1) * (floor_sqrt N + 1) \<le> d * d"
      using floor_sqrt_bounds(1)[OF assms(1)] by (intro mult_mono) auto
    then show False using floor_sqrt_bounds(3)[OF assms(1)] h by linarith
  qed
qed

section \<open>Primes and small divisors\<close>

lemma prime_int_ge_2: "prime_int p \<Longrightarrow> 2 \<le> p"
  by (simp add: prime_int_def)

lemma prime_int_divisor: "prime_int p \<Longrightarrow> d dvd p \<Longrightarrow> 2 \<le> d \<Longrightarrow> d = p"
proof -
  assume p: "prime_int p" and d: "d dvd p" "2 \<le> d"
  have "d \<le> p" using d p by (intro zdvd_imp_le) (auto simp: prime_int_def)
  then show "d = p" using p d by (cases "d = p") (auto simp: prime_int_def)
qed

lemma small_divisor:
  assumes "2 \<le> n" "\<not> prime_int n"
  shows "\<exists>d. 2 \<le> d \<and> d * d \<le> n \<and> d dvd (n::int)"
proof -
  from assms obtain d where d: "2 \<le> d" "d < n" "d dvd n" by (auto simp: prime_int_def)
  then obtain e where e: "n = d * e" by auto
  have epos: "0 < e" using d assms e by (metis less_le_trans mult_less_0_iff not_less zero_less_numeral not_less_iff_gr_or_eq mult_zero_right)
  have e2: "2 \<le> e" using d e epos by (cases "e = 1") auto
  show ?thesis
  proof (cases "d \<le> e")
    case True
    then have "d * d \<le> d * e" using d by (intro mult_left_mono) auto
    then show ?thesis using d e by auto
  next
    case False
    then have "e * e \<le> d * e" using epos by (intro mult_right_mono) auto
    then show ?thesis using e2 e by auto
  qed
qed

lemma prime_int_iff_no_small_divisor:
  assumes "2 \<le> n"
  shows "prime_int n \<longleftrightarrow> \<not> (\<exists>d. 2 \<le> d \<and> d * d \<le> n \<and> d dvd n)"
proof
  assume p: "prime_int n"
  show "\<not> (\<exists>d. 2 \<le> d \<and> d * d \<le> n \<and> d dvd n)"
  proof
    assume "\<exists>d. 2 \<le> d \<and> d * d \<le> n \<and> d dvd n"
    then obtain d where d: "2 \<le> d" "d * d \<le> n" "d dvd n" by auto
    then have "d = n" using p prime_int_divisor by blast
    moreover have "d * 2 \<le> d * d" using d by (intro mult_left_mono) auto
    ultimately show False using d by auto
  qed
next
  assume "\<not> (\<exists>d. 2 \<le> d \<and> d * d \<le> n \<and> d dvd n)"
  then show "prime_int n" using small_divisor[OF assms] by blast
qed

lemma prime_divisor_exists: "2 \<le> n \<Longrightarrow> \<exists>p. prime_int p \<and> p dvd (n::int)"
proof (induction "nat n" arbitrary: n rule: less_induct)
  case less
  show ?case
  proof (cases "prime_int n")
    case True then show ?thesis by auto
  next
    case False
    from small_divisor[OF less.prems False] obtain d where d: "2 \<le> d" "d * d \<le> n" "d dvd n" by auto
    have "d * 2 \<le> d * d" using d by (intro mult_left_mono) auto
    then have "d < n" using d by linarith
    then have "nat d < nat n" using d by auto
    from less.hyps[OF this d(1)] obtain p where "prime_int p" "p dvd d" by auto
    then show ?thesis using d(3) dvd_trans by blast
  qed
qed

lemma small_prime_divisor:
  assumes "2 \<le> n" "\<not> prime_int n"
  shows "\<exists>p. prime_int p \<and> p * p \<le> n \<and> p dvd (n::int)"
proof -
  from small_divisor[OF assms] obtain d where d: "2 \<le> d" "d * d \<le> n" "d dvd n" by auto
  from prime_divisor_exists[OF d(1)] obtain p where p: "prime_int p" "p dvd d" by auto
  have "p \<le> d" using p d by (intro zdvd_imp_le) auto
  moreover have "0 \<le> p" using p(1) by (simp add: prime_int_def)
  ultimately have "p * p \<le> d * d" by (intro mult_mono) auto
  then show ?thesis using p d dvd_trans by (intro exI[of _ p]) auto
qed

section \<open>\<^verbatim>\<open>simple_sieve\<close> returns the primes up to its argument\<close>

text \<open>
  The inner loop strikes out, from \<open>j\<close> on, the positions at distance a multiple of \<open>i\<close>;
  the outer loop keeps the invariant \<open>sieve_inv\<close>; the collection loop is a filter.
\<close>

lemma self_le_square: "1 \<le> i \<Longrightarrow> (i::int) \<le> i * i"
  using mult_left_mono[of 1 i i] by simp

lemma mark_multiples_result:
  assumes "0 < i" "0 \<le> j"
  shows "\<exists>r. mark_multiples limit i j is_prime = Some r \<and> length r = length is_prime \<and>
           (\<forall>n < length is_prime. r ! n =
              (is_prime ! n \<and> \<not> (j \<le> int n \<and> int n \<le> limit \<and> i dvd (int n - j))))"
  using assms
proof (induction "nat (limit + 1 - j)" arbitrary: j is_prime rule: less_induct)
  case less
  show ?case
  proof (cases "j \<le> limit")
    case False
    then show ?thesis by (subst mark_multiples.simps) auto
  next
    case True
    let ?v = "is_prime[nat j := False]"
    have m: "nat (limit + 1 - (j + i)) < nat (limit + 1 - j)" using True less.prems by simp
    have j': "0 \<le> j + i" using less.prems by simp
    from less.hyps[OF m less.prems(1) j', of ?v]
    obtain r where r: "mark_multiples limit i (j + i) ?v = Some r" "length r = length ?v"
      and rn: "\<And>n. n < length ?v \<Longrightarrow> r ! n =
              (?v ! n \<and> \<not> (j + i \<le> int n \<and> int n \<le> limit \<and> i dvd (int n - (j + i))))"
      by blast
    have eq: "mark_multiples limit i j is_prime = Some r"
      using True r(1) by (subst mark_multiples.simps) simp
    have "r ! n = (is_prime ! n \<and> \<not> (j \<le> int n \<and> int n \<le> limit \<and> i dvd (int n - j)))"
      if n: "n < length is_prime" for n
    proof (cases "int n = j")
      case True
      then have "nat j = n" by simp
      then show ?thesis using rn[of n] n True \<open>j \<le> limit\<close> by simp
    next
      case False
      then have ne: "nat j \<noteq> n" using less.prems by auto
      have "(j + i \<le> int n \<and> i dvd (int n - (j + i))) \<longleftrightarrow> (j \<le> int n \<and> i dvd (int n - j))"
      proof
        assume "j + i \<le> int n \<and> i dvd (int n - (j + i))"
        then have "j + i \<le> int n" "i dvd (int n - j - i)" by (simp_all add: algebra_simps)
        then have "i dvd (int n - j - i) + i" by (intro dvd_add) auto 
        then show "j \<le> int n \<and> i dvd (int n - j)" using \<open>j + i \<le> int n\<close> less.prems by simp
      next
        assume h: "j \<le> int n \<and> i dvd (int n - j)"
        then have pos: "0 < int n - j" using False by simp
        have "i \<le> int n - j" using h pos by (intro zdvd_imp_le) auto
        moreover have "i dvd (int n - j) - i" using dvd_diff[of i "int n - j" i] h by simp
        ultimately show "j + i \<le> int n \<and> i dvd (int n - (j + i))" by (simp add: algebra_simps)
      qed
      then show ?thesis using rn[of n] n ne by auto
    qed
    then show ?thesis using eq r(2) by simp
  qed
qed

lemma sieve_inv_step_marked:
  assumes inv: "sieve_inv limit i is_prime" and i: "2 \<le> i" 
    and len: "length r = length is_prime"
    and r: "\<And>n. n < length is_prime \<Longrightarrow> r ! n =
              (is_prime ! n \<and> \<not> (i * i \<le> int n \<and> int n \<le> limit \<and> i dvd (int n - i * i)))"
  shows "sieve_inv limit (i + 1) r"
proof -
  have "r ! nat n = (2 \<le> n \<and> \<not> (\<exists>d. 2 \<le> d \<and> d < i + 1 \<and> d * d \<le> n \<and> d dvd n))"
    if n: "0 \<le> n" "n \<le> limit" for n
  proof -
    have nl: "nat n < length is_prime" using inv n by (simp add: sieve_inv_def)
    have dv: "i dvd (n - i * i) \<longleftrightarrow> i dvd n" by (simp add: dvd_diff_left_iff) 
    have a: "r ! nat n = (is_prime ! nat n \<and> \<not> (i * i \<le> n \<and> i dvd n))"
      using r[OF nl] n dv by simp
    have b: "is_prime ! nat n = (2 \<le> n \<and> \<not> (\<exists>d. 2 \<le> d \<and> d < i \<and> d * d \<le> n \<and> d dvd n))"
      using inv n by (simp add: sieve_inv_def)
    have c: "(\<exists>d. 2 \<le> d \<and> d < i + 1 \<and> d * d \<le> n \<and> d dvd n) \<longleftrightarrow>
             (\<exists>d. 2 \<le> d \<and> d < i \<and> d * d \<le> n \<and> d dvd n) \<or> (i * i \<le> n \<and> i dvd n)"
    proof -
      have "d < i + 1 \<longleftrightarrow> d < i \<or> d = i" for d by auto
      then show ?thesis using i by auto
    qed
    show ?thesis unfolding a b c by auto
  qed
  then show ?thesis using inv len by (simp add: sieve_inv_def)
qed

lemma sieve_inv_step_skipped:
  assumes inv: "sieve_inv limit i is_prime" and i: "2 \<le> i" "i * i \<le> limit"
    and np: "\<not> is_prime ! nat i"
  shows "sieve_inv limit (i + 1) is_prime"
proof -
  have isq: "i \<le> i * i" using i by (intro self_le_square) simp
  then have il: "i \<le> limit" using i by linarith
  then have "is_prime ! nat i = (2 \<le> i \<and> \<not> (\<exists>d. 2 \<le> d \<and> d < i \<and> d * d \<le> i \<and> d dvd i))"
    using inv i by (simp add: sieve_inv_def)
  with np i obtain d where d: "2 \<le> d" "d < i" "d * d \<le> i" "d dvd i" by auto
  have "(\<exists>d. 2 \<le> d \<and> d < i + 1 \<and> d * d \<le> n \<and> d dvd n) \<longleftrightarrow>
        (\<exists>d. 2 \<le> d \<and> d < i \<and> d * d \<le> n \<and> d dvd n)" for n
  proof
    assume "\<exists>d. 2 \<le> d \<and> d < i + 1 \<and> d * d \<le> n \<and> d dvd n"
    then obtain e where e: "2 \<le> e" "e < i + 1" "e * e \<le> n" "e dvd n" by auto
    show "\<exists>d. 2 \<le> d \<and> d < i \<and> d * d \<le> n \<and> d dvd n"
    proof (cases "e = i")
      case True
      have "d * d \<le> i * i" using d isq by linarith
      then have "d * d \<le> n" using e True by simp
      moreover have "d dvd n" using d(4) e(4) True dvd_trans by blast
      ultimately show ?thesis using d by blast
    next
      case False
      then show ?thesis using e by (intro exI[of _ e]) auto
    qed
  next
    assume "\<exists>d. 2 \<le> d \<and> d < i \<and> d * d \<le> n \<and> d dvd n"
    then show "\<exists>d. 2 \<le> d \<and> d < i + 1 \<and> d * d \<le> n \<and> d dvd n" by force
  qed
  then show ?thesis using inv by (simp add: sieve_inv_def)
qed

lemma sieve_inv_final:
  assumes inv: "sieve_inv limit i is_prime" and i: "2 \<le> i" "\<not> i * i \<le> limit"
    and n: "0 \<le> n" "n \<le> limit"
  shows "is_prime ! nat n = prime_int n"
proof (cases "2 \<le> n")
  case False
  then show ?thesis using inv n by (simp add: sieve_inv_def prime_int_def)
next
  case True
  have "(\<exists>d. 2 \<le> d \<and> d < i \<and> d * d \<le> n \<and> d dvd n) \<longleftrightarrow> (\<exists>d. 2 \<le> d \<and> d * d \<le> n \<and> d dvd n)"
  proof
    assume "\<exists>d. 2 \<le> d \<and> d * d \<le> n \<and> d dvd n"
    then obtain d where d: "2 \<le> d" "d * d \<le> n" "d dvd n" by auto
    have "d < i"
    proof (rule ccontr)
      assume "\<not> d < i"
      then have "i * i \<le> d * d" using i by (intro mult_mono) auto
      then show False using d n i by linarith
    qed
    then show "\<exists>d. 2 \<le> d \<and> d < i \<and> d * d \<le> n \<and> d dvd n" using d by blast
  qed blast
  moreover have "is_prime ! nat n = (\<not> (\<exists>d. 2 \<le> d \<and> d < i \<and> d * d \<le> n \<and> d dvd n))"
    using inv n True unfolding sieve_inv_def by blast
  ultimately show ?thesis using prime_int_iff_no_small_divisor[OF True] by simp
qed

lemma sieve_loop_result:
  assumes "2 \<le> i" "sieve_inv limit i is_prime"
  shows "\<exists>r. sieve_loop limit i is_prime = Some r \<and> length r = nat (limit + 1) \<and>
           (\<forall>n. 0 \<le> n \<and> n \<le> limit \<longrightarrow> r ! nat n = prime_int n)"
  using assms
proof (induction "nat (limit + 1 - i)" arbitrary: i is_prime rule: less_induct)
  case less
  show ?case
  proof (cases "i * i \<le> limit")
    case False
    have "sieve_loop limit i is_prime = Some is_prime"
      using False by (subst sieve_loop.simps) simp
    moreover have "length is_prime = nat (limit + 1)" using less.prems by (simp add: sieve_inv_def)
    ultimately show ?thesis using sieve_inv_final[OF less.prems(2,1) False] by simp
  next
    case True
    have "i \<le> i * i" using less.prems by (intro self_le_square) simp
    then have m: "nat (limit + 1 - (i + 1)) < nat (limit + 1 - i)" using True by linarith
    have i': "2 \<le> i + 1" using less.prems by simp
    show ?thesis
    proof (cases "is_prime ! nat i")
      case False
      have inv': "sieve_inv limit (i + 1) is_prime"
        using sieve_inv_step_skipped[OF less.prems(2,1) True False] .
      have "sieve_loop limit i is_prime = sieve_loop limit (i + 1) is_prime"
        using True False by (subst sieve_loop.simps) simp
      then show ?thesis using less.hyps[OF m i' inv'] by simp
    next
      case ip: True
      have "0 < i" "0 \<le> i * i" using less.prems by auto
      from mark_multiples_result[OF this, of limit is_prime]
      obtain r where r: "mark_multiples limit i (i * i) is_prime = Some r" "length r = length is_prime"
        "\<And>n. n < length is_prime \<Longrightarrow> r ! n =
              (is_prime ! n \<and> \<not> (i * i \<le> int n \<and> int n \<le> limit \<and> i dvd (int n - i * i)))"
        by blast
      have inv': "sieve_inv limit (i + 1) r"
        using sieve_inv_step_marked[OF less.prems(2,1) r(2)] r(3) by blast
      have "sieve_loop limit i is_prime = sieve_loop limit (i + 1) r"
        using True ip r(1) by (subst sieve_loop.simps) simp
      then show ?thesis using less.hyps[OF m i' inv'] by simp
    qed
  qed
qed

lemma collect_primes_eq:
  "collect_primes limit i is_prime primes = primes @ filter (\<lambda>n. is_prime ! nat n) [i..limit]"
proof (induction limit i is_prime primes rule: collect_primes.induct)
  case (1 limit i is_prime primes)
  show ?case
  proof (cases "i \<le> limit")
    case True
    then have "[i..limit] = i # [i + 1..limit]" by (simp add: upto_rec1)
    then show ?thesis using 1 True by (subst collect_primes.simps) simp
  next
    case False
    then show ?thesis by (subst collect_primes.simps) simp
  qed
qed

lemma sieve_inv_init:
  assumes "0 \<le> limit"
  shows "sieve_inv limit 2
     (let is_prime0 = replicate (nat (limit + 1)) True;
          is_prime1 = (if limit \<ge> 0 then is_prime0[0 := False] else is_prime0)
      in (if limit \<ge> 1 then is_prime1[1 := False] else is_prime1))"
proof -
  have "((replicate (nat (limit + 1)) True)[0 := False, 1 := False]) ! nat n = (2 \<le> n)"
    if n: "0 \<le> n" "n \<le> limit" for n
  proof -
    consider "n = 0" | "n = 1" | "2 \<le> n" using n by fastforce
    then show ?thesis
    proof cases
      case 1 then show ?thesis using n by (simp add: nth_list_update)
    next
      case 2 then show ?thesis using n by (simp add: nth_list_update)
    next
      case 3 
      then have "nat n \<noteq> 0" "nat n \<noteq> 1" "nat n \<noteq> Suc 0" by auto
      then show ?thesis using n 3 by (simp add: nth_list_update)
    qed
  qed
  moreover have "((replicate (nat (limit + 1)) True)[0 := False]) ! nat n = (2 \<le> n)"
    if "0 \<le> n" "n \<le> limit" "\<not> 1 \<le> limit" for n
    using that by (simp add: nth_list_update)
  ultimately show ?thesis using assms by (auto simp: sieve_inv_def Let_def)
qed

lemma simple_sieve_eq:
  assumes "0 \<le> limit" "limit < INT_MAX"
  shows "simple_sieve limit = Some (Inr (primes_upto limit))"
proof -
  let ?v = "(let is_prime0 = replicate (nat (limit + 1)) True;
          is_prime1 = (if limit \<ge> 0 then is_prime0[0 := False] else is_prime0)
      in (if limit \<ge> 1 then is_prime1[1 := False] else is_prime1))"
  from sieve_loop_result[OF _ sieve_inv_init[OF assms(1)]]
  obtain r where r: "sieve_loop limit 2 ?v = Some r" 
     "\<And>n. 0 \<le> n \<and> n \<le> limit \<Longrightarrow> r ! nat n = prime_int n" by auto
  have "filter (\<lambda>n. r ! nat n) [2..limit] = filter prime_int [2..limit]"
    using r(2) by (intro filter_cong) auto
  then have "collect_primes limit 2 r [] = primes_upto limit"
    by (simp add: collect_primes_eq primes_upto_def)
  then show ?thesis using r(1) assms by (simp add: simple_sieve_def vector_bool_def Let_def)
qed

lemma simple_sieve_overflow: "INT_MAX \<le> limit \<Longrightarrow> simple_sieve limit = Some (Inl Overflow)"
  by (simp add: simple_sieve_def)

lemma simple_sieve_negative:
  assumes "limit < 0"
  shows "simple_sieve limit = (if limit < - 64 then Some (Inl LengthError) else Some (Inr []))"
proof -
  have "sieve_loop limit 2 [] = Some []"
    using assms by (subst sieve_loop.simps) simp
  moreover have "collect_primes limit 2 [] [] = []"
    using assms by (subst collect_primes.simps) simp
  ultimately show ?thesis
    using assms by (simp add: simple_sieve_def vector_bool_def INT_MAX_def)
qed

lemma sorted_primes_upto: "sorted_wrt (<) (primes_upto n)"
  unfolding primes_upto_def by (intro sorted_wrt_filter) (simp add: sorted_wrt_upto) 

lemma set_primes_upto: "set (primes_upto n) = {p. prime_int p \<and> p \<le> n}"
  by (auto simp: primes_upto_def prime_int_def)

lemma primes_upto_empty: "n < 2 \<Longrightarrow> primes_upto n = []"
  by (simp add: primes_upto_def)

section \<open>One base prime marks its odd multiples\<close>

text \<open>
  The marking loop started at \<open>x \<ge> low\<close> clears the positions of \<open>x, x + 2p, x + 4p, \<dots>\<close> up to
  \<open>high\<close>, and nothing else; in the OpenMP file it never leaves the buffer. Started at the
  first odd multiple, these are the odd multiples of \<open>p\<close> from \<open>max (p\<^sup>2, low)\<close> on.
\<close>

lemma progression_step:
  assumes "0 < (s::int)"
  shows "(x \<le> y \<and> s dvd (y - x)) \<longleftrightarrow> (y = x \<or> (x + s \<le> y \<and> s dvd (y - (x + s))))"
proof
  assume h: "x \<le> y \<and> s dvd (y - x)"
  show "y = x \<or> (x + s \<le> y \<and> s dvd (y - (x + s)))"
  proof (cases "y = x")
    case False
    then have pos: "0 < y - x" using h by simp
    have "s \<le> y - x" using h pos by (intro zdvd_imp_le) auto
    moreover have "s dvd (y - x) - s" using dvd_diff[of s "y - x" s] h by simp
    ultimately show ?thesis by (simp add: algebra_simps)
  qed simp
next
  assume h: "y = x \<or> (x + s \<le> y \<and> s dvd (y - (x + s)))"
  show "x \<le> y \<and> s dvd (y - x)"
  proof (cases "y = x")
    case False
    then have a: "x + s \<le> y" "s dvd (y - (x + s))" using h by auto
    have "s dvd (y - (x + s)) + s" using a(2) by (intro dvd_add) auto
    then show ?thesis using a(1) assms by (simp add: algebra_simps)
  qed simp
qed

lemma mark_odd_multiples_serial_result:
  assumes "0 < p" "low \<le> x" "int (length segment) = odd_count" "(high - low) div 2 < odd_count"
  shows "\<exists>r. mark_odd_multiples_serial p low high odd_count x segment = Some r \<and>
           length r = length segment \<and>
           (\<forall>k < length segment. r ! k =
              (segment ! k \<and>
               \<not> (\<exists>y. x \<le> y \<and> y \<le> high \<and> (2 * p) dvd (y - x) \<and> (y - low) div 2 = int k)))"
  using assms
proof (induction "nat (high + 1 - x)" arbitrary: x segment rule: less_induct)
  case less
  show ?case
  proof (cases "x \<le> high")
    case False
    then show ?thesis by (subst mark_odd_multiples_serial.simps) auto
  next
    case True
    define idx where "idx = (x - low) div 2"
    have idx_s: "(x - low) sdiv 2 = idx" using less.prems by (simp add: idx_def sdiv_nonneg)
    have idx0: "0 \<le> idx" using less.prems by (simp add: idx_def)
    have "idx \<le> (high - low) div 2" unfolding idx_def using True by (intro zdiv_mono1) auto
    then have idx1: "idx < odd_count" using less.prems by simp
    let ?v = "segment[nat idx := False]"
    have upd: "(if segment ! nat idx then segment[nat idx := False] else segment) = ?v"
      by (metis list_update_id)
    have m: "nat (high + 1 - (x + 2 * p)) < nat (high + 1 - x)" using True less.prems by simp
    have x': "low \<le> x + 2 * p" using less.prems by simp
    have l': "int (length ?v) = odd_count" using less.prems by simp
    from less.hyps[OF m less.prems(1) x' l' less.prems(4)]
    obtain r where r: "mark_odd_multiples_serial p low high odd_count (x + 2 * p) ?v = Some r"
      "length r = length ?v"
      and rk: "\<And>k. k < length ?v \<Longrightarrow> r ! k =
              (?v ! k \<and> \<not> (\<exists>y. x + 2 * p \<le> y \<and> y \<le> high \<and> (2 * p) dvd (y - (x + 2 * p))
                    \<and> (y - low) div 2 = int k))"
      by blast
    have eq: "mark_odd_multiples_serial p low high odd_count x segment = Some r"
      using True r(1) idx0 idx1 upd
      by (subst mark_odd_multiples_serial.simps) (simp add: idx_s Let_def)
    have "r ! k = (segment ! k \<and>
               \<not> (\<exists>y. x \<le> y \<and> y \<le> high \<and> (2 * p) dvd (y - x) \<and> (y - low) div 2 = int k))"
      if k: "k < length segment" for k
    proof -
      have st: "(x \<le> y \<and> (2 * p) dvd (y - x)) \<longleftrightarrow>
                (y = x \<or> (x + 2 * p \<le> y \<and> (2 * p) dvd (y - (x + 2 * p))))" for y
        using progression_step[of "2 * p" x y] less.prems(1) by simp
      have "(\<exists>y. x \<le> y \<and> y \<le> high \<and> (2 * p) dvd (y - x) \<and> (y - low) div 2 = int k) \<longleftrightarrow>
            (idx = int k \<or> (\<exists>y. x + 2 * p \<le> y \<and> y \<le> high \<and> (2 * p) dvd (y - (x + 2 * p))
                    \<and> (y - low) div 2 = int k))"
        (is "?L \<longleftrightarrow> ?R")
      proof
        assume ?L
        then obtain y where y: "x \<le> y \<and> (2 * p) dvd (y - x)" "y \<le> high" "(y - low) div 2 = int k"
          by blast
        from y(1) st[of y] have "y = x \<or> (x + 2 * p \<le> y \<and> (2 * p) dvd (y - (x + 2 * p)))" by simp
        then show ?R using y(2,3) idx_def by blast
      next
        assume ?R
        then show ?L
        proof
          assume "idx = int k"
          then show ?L using True idx_def by (intro exI[of _ x]) simp
        next
          assume "\<exists>y. x + 2 * p \<le> y \<and> y \<le> high \<and> (2 * p) dvd (y - (x + 2 * p))
                    \<and> (y - low) div 2 = int k"
          then obtain y where y: "x + 2 * p \<le> y \<and> (2 * p) dvd (y - (x + 2 * p))" "y \<le> high"
             "(y - low) div 2 = int k" by blast
          from y(1) st[of y] have "x \<le> y \<and> (2 * p) dvd (y - x)" by simp
          then show ?L using y(2,3) by blast
        qed
      qed
      moreover have "?v ! k = (segment ! k \<and> idx \<noteq> int k)"
      proof (cases "nat idx = k")
        case True
        then show ?thesis using k idx0 by auto
      next
        case False
        then have "idx \<noteq> int k" by auto
        then show ?thesis using False by simp
      qed
      ultimately show ?thesis using rk[of k] k by auto
    qed
    then show ?thesis using eq r(2) by simp
  qed
qed

lemma mark_odd_multiples_openmp_eq_serial:
  assumes "0 < p" "low \<le> x" "(high - low) div 2 < int (length segment)"
  shows "mark_odd_multiples_openmp p low high x segment =
         map_option Inr (mark_odd_multiples_serial p low high (int (length segment)) x segment)"
  using assms
proof (induction "nat (high + 1 - x)" arbitrary: x segment rule: less_induct)
  case less
  show ?case
  proof (cases "x \<le> high")
    case False
    then show ?thesis
      by (subst mark_odd_multiples_openmp.simps, subst mark_odd_multiples_serial.simps) simp
  next
    case True
    define idx where "idx = (x - low) div 2"
    have idx_s: "(x - low) sdiv 2 = idx" using less.prems by (simp add: idx_def sdiv_nonneg)
    have idx0: "0 \<le> idx" using less.prems by (simp add: idx_def)
    have "idx \<le> (high - low) div 2" unfolding idx_def using True by (intro zdiv_mono1) auto
    then have idx1: "idx < int (length segment)" using less.prems by simp
    let ?v = "segment[nat idx := False]"
    have upd: "(if segment ! nat idx then segment[nat idx := False] else segment) = ?v"
      by (metis list_update_id)
    have m: "nat (high + 1 - (x + 2 * p)) < nat (high + 1 - x)" using True less.prems by simp
    have x': "low \<le> x + 2 * p" using less.prems by simp
    have l': "(high - low) div 2 < int (length ?v)" using less.prems by simp
    have ih: "mark_odd_multiples_openmp p low high (x + 2 * p) ?v =
         map_option Inr (mark_odd_multiples_serial p low high (int (length segment)) (x + 2 * p) ?v)"
      using less.hyps[OF m less.prems(1) x' l'] by simp
    have a: "mark_odd_multiples_openmp p low high x segment =
             mark_odd_multiples_openmp p low high (x + 2 * p) ?v"
      using True idx0 idx1 by (subst mark_odd_multiples_openmp.simps) (simp add: idx_s Let_def)
    have b: "mark_odd_multiples_serial p low high (int (length segment)) x segment =
             mark_odd_multiples_serial p low high (int (length segment)) (x + 2 * p) ?v"
      using True idx0 idx1 upd
      by (subst mark_odd_multiples_serial.simps) (simp add: idx_s Let_def)
    show ?thesis unfolding a b ih ..
  qed
qed

lemma first_multiple_props:
  assumes "0 < p" "0 \<le> low"
  shows "p dvd first_multiple low p" "low \<le> first_multiple low p"
    "\<And>y. p dvd y \<Longrightarrow> low \<le> y \<Longrightarrow> first_multiple low p \<le> y"
proof -
  define q where "q = (low + p - 1) div p"
  have fm: "first_multiple low p = q * p"
    using assms by (simp add: first_multiple_def q_def sdiv_nonneg)
  have dm: "low + p - 1 = q * p + (low + p - 1) mod p" by (simp add: q_def)
  have r: "0 \<le> (low + p - 1) mod p" "(low + p - 1) mod p < p" using assms by auto
  show "p dvd first_multiple low p" by (simp add: fm)
  show "low \<le> first_multiple low p" using dm r unfolding fm by linarith
  show "first_multiple low p \<le> y" if y: "p dvd y" "low \<le> y" for y
  proof -
    from y(1) obtain t where t: "y = t * p" by (metis dvd_def mult.commute)
    have "q * p < (t + 1) * p" using dm r y(2) unfolding t by (simp add: algebra_simps)
    then have "q < t + 1" using assms(1) by (simp add: mult_less_cancel_right)
    then have "q * p \<le> t * p" using assms(1) by (intro mult_right_mono) auto
    then show ?thesis by (simp add: fm t)
  qed
qed

lemma first_odd_multiple_props:
  assumes "0 < p" "odd p" "0 \<le> low"
  shows "p dvd first_odd_multiple low p" "odd (first_odd_multiple low p)"
    "low \<le> first_odd_multiple low p" "p * p \<le> first_odd_multiple low p"
    "\<And>y. p dvd y \<Longrightarrow> odd y \<Longrightarrow> low \<le> y \<Longrightarrow> p * p \<le> y \<Longrightarrow> first_odd_multiple low p \<le> y"
proof -
  define s0 where "s0 = max (p * p) (first_multiple low p)"
  note fm = first_multiple_props[OF assms(1,3)]
  have s0_dvd: "p dvd s0" using fm(1) by (simp add: s0_def max_def)
  have s0_ge: "low \<le> s0" "p * p \<le> s0" using fm(2) by (simp_all add: s0_def)
  have s0_min: "s0 \<le> y" if "p dvd y" "low \<le> y" "p * p \<le> y" for y
    using fm(3)[OF that(1,2)] that(3) by (simp add: s0_def)
  have eq: "first_odd_multiple low p = (if even s0 then s0 + p else s0)"
    by (simp add: first_odd_multiple_def s0_def Let_def smod_2_eq_0_iff)
  show "p dvd first_odd_multiple low p" using s0_dvd by (simp add: eq)
  show "odd (first_odd_multiple low p)" using assms(2) by (simp add: eq)
  show "low \<le> first_odd_multiple low p" using s0_ge assms(1) by (simp add: eq)
  show "p * p \<le> first_odd_multiple low p" using s0_ge assms(1) by (simp add: eq)
  show "first_odd_multiple low p \<le> y" if y: "p dvd y" "odd y" "low \<le> y" "p * p \<le> y" for y
  proof (cases "even s0")
    case False
    then show ?thesis using s0_min[OF y(1,3,4)] by (simp add: eq)
  next
    case True
    have le: "s0 \<le> y" using s0_min[OF y(1,3,4)] .
    have "s0 \<noteq> y" using True y(2) by auto
    then have pos: "0 < y - s0" using le by simp
    have "p dvd y - s0" using y(1) s0_dvd by (intro dvd_diff) auto
    then have "p \<le> y - s0" using pos by (intro zdvd_imp_le) auto
    then show ?thesis using True by (simp add: eq)
  qed
qed

lemma odd_multiples_progression:
  assumes "0 < p" "odd p" "0 \<le> low"
  shows "(first_odd_multiple low p \<le> y \<and> (2 * p) dvd (y - first_odd_multiple low p)) \<longleftrightarrow>
         (odd y \<and> p dvd y \<and> low \<le> y \<and> p * p \<le> y)"
proof
  note s = first_odd_multiple_props[OF assms]
  let ?s = "first_odd_multiple low p"
  assume h: "?s \<le> y \<and> (2 * p) dvd (y - ?s)"
  then obtain m where m: "y - ?s = 2 * p * m" by auto
  then have y: "y = ?s + 2 * p * m" by simp
  have "odd y" unfolding y using s(2) by simp
  moreover have "p dvd y" unfolding y using s(1) by simp
  ultimately show "odd y \<and> p dvd y \<and> low \<le> y \<and> p * p \<le> y" using h s(3,4) by auto
next
  note s = first_odd_multiple_props[OF assms]
  let ?s = "first_odd_multiple low p"
  assume h: "odd y \<and> p dvd y \<and> low \<le> y \<and> p * p \<le> y"
  then have le: "?s \<le> y" using s(5) by blast
  have "p dvd y - ?s" using h s(1) by (intro dvd_diff) auto
  then obtain t where t: "y - ?s = p * t" by auto
  have "even (y - ?s)" using h s(2) by simp
  then have "even t" using assms(2) unfolding t by simp
  then obtain u where "t = 2 * u" by auto
  then have "y - ?s = (2 * p) * u" using t by simp
  then have "(2 * p) dvd (y - ?s)" by (metis dvd_triv_left)
  then show "?s \<le> y \<and> (2 * p) dvd (y - ?s)" using le by simp
qed

lemma mark_prime_serial_result:
  assumes p: "0 < p" "odd p" and low: "0 \<le> low" "odd low"
    and len: "int (length segment) = odd_count" and oc: "odd_count = (high - low) div 2 + 1"
  shows "\<exists>r. mark_odd_multiples_serial p low high odd_count (first_odd_multiple low p) segment
                = Some r \<and>
           length r = length segment \<and>
           (\<forall>k < length segment. r ! k =
              (segment ! k \<and> \<not> (p dvd (low + 2 * int k) \<and> p * p \<le> low + 2 * int k)))"
proof -
  let ?s = "first_odd_multiple low p"
  note s = first_odd_multiple_props[OF p low(1)]
  have oc': "(high - low) div 2 < odd_count" using oc by simp
  from mark_odd_multiples_serial_result[OF p(1) s(3) len oc']
  obtain r where r: "mark_odd_multiples_serial p low high odd_count ?s segment = Some r"
    "length r = length segment"
    and rk: "\<And>k. k < length segment \<Longrightarrow> r ! k =
              (segment ! k \<and>
               \<not> (\<exists>y. ?s \<le> y \<and> y \<le> high \<and> (2 * p) dvd (y - ?s) \<and> (y - low) div 2 = int k))"
    by blast
  have "(\<exists>y. ?s \<le> y \<and> y \<le> high \<and> (2 * p) dvd (y - ?s) \<and> (y - low) div 2 = int k) \<longleftrightarrow>
        (p dvd (low + 2 * int k) \<and> p * p \<le> low + 2 * int k)" (is "?L \<longleftrightarrow> ?R")
    if k: "k < length segment" for k
  proof
    assume ?L
    then obtain y where y: "?s \<le> y \<and> (2 * p) dvd (y - ?s)" "y \<le> high" "(y - low) div 2 = int k"
      by blast
    from y(1) have o: "odd y \<and> p dvd y \<and> low \<le> y \<and> p * p \<le> y"
      using odd_multiples_progression[OF p low(1)] by blast
    then have "even (y - low)" using low(2) by simp
    then have "y - low = 2 * ((y - low) div 2)" by simp
    then have "y = low + 2 * int k" using y(3) by simp
    then show ?R using o by simp
  next
    assume R: ?R
    let ?y = "low + 2 * int k"
    have "int k \<le> (high - low) div 2" using k len oc by simp
    then have "2 * int k \<le> 2 * ((high - low) div 2)" by simp
    also have "\<dots> \<le> high - low" by (simp add: algebra_simps) 
    finally have hi: "?y \<le> high" by simp
    have "odd ?y \<and> p dvd ?y \<and> low \<le> ?y \<and> p * p \<le> ?y" using R low(2) by simp
    then have "?s \<le> ?y \<and> (2 * p) dvd (?y - ?s)"
      using odd_multiples_progression[OF p low(1), of ?y] by blast
    moreover have "(?y - low) div 2 = int k" by simp
    ultimately show ?L using hi by blast
  qed
  then show ?thesis using r rk by simp
qed

section \<open>The loop over the base primes\<close>

text \<open>
  After the loop, position \<open>k\<close> is still set exactly if no processed prime marks
  \<open>low + 2 k\<close>; with \<^verbatim>\<open>break\<close>, the processed primes are the longest prefix of primes whose
  square is at most \<open>high\<close>.
\<close>

lemma prime_int_odd: "prime_int p \<Longrightarrow> p \<noteq> 2 \<Longrightarrow> odd p"
  using prime_int_divisor[of p 2] by auto

lemma marks_insert: "marks (insert p P) x \<longleftrightarrow> (p \<noteq> 2 \<and> p dvd x \<and> p * p \<le> x) \<or> marks P x"
  by (auto simp: marks_def)

lemma marks_empty: "\<not> marks {} x"
  by (simp add: marks_def)

lemma mark_all_base_primes_serial_result:
  assumes ps: "\<forall>p\<in>set ps. p = 2 \<or> (0 < p \<and> odd p)" and low: "0 \<le> low" "odd low"
    and len: "int (length segment) = odd_count" and oc: "odd_count = (high - low) div 2 + 1"
  shows "\<exists>r. mark_all_base_primes_serial low high odd_count ps segment = Some (Inr r) \<and>
           length r = length segment \<and>
           (\<forall>k < length segment. r ! k = (segment ! k \<and> \<not> marks (set ps) (low + 2 * int k)))"
  using ps len
proof (induction ps arbitrary: segment)
  case Nil
  then show ?case by (simp add: marks_empty)
next
  case (Cons p ps)
  have ps': "\<forall>p\<in>set ps. p = 2 \<or> (0 < p \<and> odd p)" using Cons.prems by simp
  show ?case
  proof (cases "p = 2")
    case True
    from Cons.IH[OF ps' Cons.prems(2)] show ?thesis using True by (simp add: marks_insert)
  next
    case False
    then have p: "0 < p" "odd p" using Cons.prems by auto
    from mark_prime_serial_result[OF p low Cons.prems(2) oc]
    obtain r1 where r1: "mark_odd_multiples_serial p low high odd_count (first_odd_multiple low p) segment
                = Some r1" "length r1 = length segment"
      and r1k: "\<And>k. k < length segment \<Longrightarrow> r1 ! k =
              (segment ! k \<and> \<not> (p dvd (low + 2 * int k) \<and> p * p \<le> low + 2 * int k))"
      by blast
    have len1: "int (length r1) = odd_count" using r1(2) Cons.prems(2) by simp
    from Cons.IH[OF ps' len1]
    obtain r where r: "mark_all_base_primes_serial low high odd_count ps r1 = Some (Inr r)"
      "length r = length r1"
      and rk: "\<And>k. k < length r1 \<Longrightarrow> r ! k = (r1 ! k \<and> \<not> marks (set ps) (low + 2 * int k))"
      by blast
    have "mark_all_base_primes_serial low high odd_count (p # ps) segment = Some (Inr r)"
      using False p r1(1) r(1) by simp
    moreover have "r ! k = (segment ! k \<and> \<not> marks (set (p # ps)) (low + 2 * int k))"
      if "k < length segment" for k
      using rk[of k] r1k[of k] that r1(2) False by (auto simp: marks_insert)
    ultimately show ?thesis using r(2) r1(2) by simp
  qed
qed

lemma mark_base_primes_serial_result:
  assumes ps: "\<forall>p\<in>set ps. p = 2 \<or> (0 < p \<and> odd p)" and low: "0 \<le> low" "odd low"
    and len: "int (length segment) = odd_count" and oc: "odd_count = (high - low) div 2 + 1"
  shows "\<exists>r. mark_base_primes_serial low high odd_count ps segment = Some (Inr r) \<and>
           length r = length segment \<and>
           (\<forall>k < length segment. r ! k =
              (segment ! k \<and>
               \<not> marks (set (takeWhile (\<lambda>p. p = 2 \<or> p * p \<le> high) ps)) (low + 2 * int k)))"
  using ps len
proof (induction ps arbitrary: segment)
  case Nil
  then show ?case by (simp add: marks_empty)
next
  case (Cons p ps)
  have ps': "\<forall>p\<in>set ps. p = 2 \<or> (0 < p \<and> odd p)" using Cons.prems by simp
  show ?case
  proof (cases "p = 2")
    case True
    from Cons.IH[OF ps' Cons.prems(2)] show ?thesis using True by (simp add: marks_insert)
  next
    case False
    then have p: "0 < p" "odd p" using Cons.prems by auto
    show ?thesis
    proof (cases "p * p \<le> high")
      case stop: False
      then show ?thesis using False by (simp add: marks_empty)
    next
      case True
      from mark_prime_serial_result[OF p low Cons.prems(2) oc]
      obtain r1 where r1: "mark_odd_multiples_serial p low high odd_count (first_odd_multiple low p) segment
                = Some r1" "length r1 = length segment"
        and r1k: "\<And>k. k < length segment \<Longrightarrow> r1 ! k =
              (segment ! k \<and> \<not> (p dvd (low + 2 * int k) \<and> p * p \<le> low + 2 * int k))"
        by blast
      have len1: "int (length r1) = odd_count" using r1(2) Cons.prems(2) by simp
      from Cons.IH[OF ps' len1]
      obtain r where r: "mark_base_primes_serial low high odd_count ps r1 = Some (Inr r)"
        "length r = length r1"
        and rk: "\<And>k. k < length r1 \<Longrightarrow> r ! k = (r1 ! k \<and>
           \<not> marks (set (takeWhile (\<lambda>p. p = 2 \<or> p * p \<le> high) ps)) (low + 2 * int k))"
        by blast
      have "mark_base_primes_serial low high odd_count (p # ps) segment = Some (Inr r)"
        using False True p r1(1) r(1) by simp
      moreover have "r ! k = (segment ! k \<and>
          \<not> marks (set (takeWhile (\<lambda>p. p = 2 \<or> p * p \<le> high) (p # ps))) (low + 2 * int k))"
        if "k < length segment" for k
        using rk[of k] r1k[of k] that r1(2) False True by (auto simp: marks_insert)
      ultimately show ?thesis using r(2) r1(2) by simp
    qed
  qed
qed

lemma mark_base_primes_openmp_eq_serial:
  assumes ps: "\<forall>p\<in>set ps. p = 2 \<or> (0 < p \<and> odd p)" and low: "0 \<le> low" "odd low"
    and oc: "int (length segment) = (high - low) div 2 + 1"
  shows "mark_base_primes_openmp low high ps segment =
         mark_base_primes_serial low high (int (length segment)) ps segment"
  using ps oc
proof (induction ps arbitrary: segment)
  case Nil
  then show ?case by simp
next
  case (Cons p ps)
  have ps': "\<forall>p\<in>set ps. p = 2 \<or> (0 < p \<and> odd p)" using Cons.prems by simp
  show ?case
  proof (cases "p = 2 \<or> p * p > high")
    case True
    then show ?thesis using Cons.IH[OF ps' Cons.prems(2)] by auto
  next
    case False
    then have p: "0 < p" "odd p" using Cons.prems by auto
    note s = first_odd_multiple_props[OF p low(1)]
    from mark_prime_serial_result[OF p low refl Cons.prems(2)]
    obtain r1 where r1: "mark_odd_multiples_serial p low high (int (length segment))
         (first_odd_multiple low p) segment = Some r1" "length r1 = length segment"
      by blast
    have "(high - low) div 2 < int (length segment)" using Cons.prems(2) by simp
    from mark_odd_multiples_openmp_eq_serial[OF p(1) s(3) this]
    have o1: "mark_odd_multiples_openmp p low high (first_odd_multiple low p) segment = Some (Inr r1)"
      using r1(1) by simp
    have len1: "int (length r1) = (high - low) div 2 + 1" using r1(2) Cons.prems(2) by simp
    show ?thesis using False p r1 o1 Cons.IH[OF ps' len1] by simp
  qed
qed

lemma mark_all_base_primes_openmp_eq_serial:
  assumes ps: "\<forall>p\<in>set ps. p = 2 \<or> (0 < p \<and> odd p)" and low: "0 \<le> low" "odd low"
    and oc: "int (length segment) = (high - low) div 2 + 1"
  shows "mark_all_base_primes_openmp low high ps segment =
         mark_all_base_primes_serial low high (int (length segment)) ps segment"
  using ps oc
proof (induction ps arbitrary: segment)
  case Nil
  then show ?case by simp
next
  case (Cons p ps)
  have ps': "\<forall>p\<in>set ps. p = 2 \<or> (0 < p \<and> odd p)" using Cons.prems by simp
  show ?case
  proof (cases "p = 2")
    case True
    then show ?thesis using Cons.IH[OF ps' Cons.prems(2)] by auto
  next
    case False
    then have p: "0 < p" "odd p" using Cons.prems by auto
    note s = first_odd_multiple_props[OF p low(1)]
    from mark_prime_serial_result[OF p low refl Cons.prems(2)]
    obtain r1 where r1: "mark_odd_multiples_serial p low high (int (length segment))
         (first_odd_multiple low p) segment = Some r1" "length r1 = length segment"
      by blast
    have "(high - low) div 2 < int (length segment)" using Cons.prems(2) by simp
    from mark_odd_multiples_openmp_eq_serial[OF p(1) s(3) this]
    have o1: "mark_odd_multiples_openmp p low high (first_odd_multiple low p) segment = Some (Inr r1)"
      using r1(1) by simp
    have len1: "int (length r1) = (high - low) div 2 + 1" using r1(2) Cons.prems(2) by simp
    show ?thesis using False p r1 o1 Cons.IH[OF ps' len1] by simp
  qed
qed

lemma set_takeWhile_sorted:
  assumes "sorted xs" "\<And>x y. x \<in> set xs \<Longrightarrow> y \<in> set xs \<Longrightarrow> y \<le> x \<Longrightarrow> P x \<Longrightarrow> P y"
  shows "set (takeWhile P xs) = {x \<in> set xs. P x}"
  using assms
proof (induction xs)
  case Nil
  then show ?case by simp
next
  case (Cons a xs)
  have s: "sorted xs" and ale: "\<And>x. x \<in> set xs \<Longrightarrow> a \<le> x" using Cons.prems(1) by auto
  have ih: "set (takeWhile P xs) = {x \<in> set xs. P x}"
    using Cons.IH[OF s] Cons.prems(2) by auto
  show ?case
  proof (cases "P a")
    case True
    then show ?thesis using ih by auto
  next
    case False
    have "\<not> P x" if "x \<in> set xs" for x
      using Cons.prems(2)[of x a] that ale[OF that] False by auto
    then show ?thesis using False by auto
  qed
qed

lemma marks_base_primes_iff:
  assumes ps: "set ps = {p. prime_int p \<and> p \<le> floor_sqrt N}" and N: "0 \<le> N"
    and x: "3 \<le> x" "odd x" "x \<le> N"
  shows "\<not> marks (set ps) x \<longleftrightarrow> prime_int x"
proof
  assume nm: "\<not> marks (set ps) x"
  show "prime_int x"
  proof (rule ccontr)
    assume "\<not> prime_int x"
    then obtain p where p: "prime_int p" "p * p \<le> x" "p dvd x"
      using small_prime_divisor[of x] x by auto
    have "p \<noteq> 2" using p(3) x(2) by auto
    moreover have "p \<le> floor_sqrt N"
      using le_floor_sqrt_iff[OF N, of p] p(1,2) x(3) prime_int_ge_2[of p] by auto
    ultimately show False using nm p ps by (auto simp: marks_def)
  qed
next
  assume px: "prime_int x"
  show "\<not> marks (set ps) x"
  proof
    assume "marks (set ps) x"
    then obtain p where p: "p \<in> set ps" "p dvd x" "p * p \<le> x" by (auto simp: marks_def)
    then have "2 \<le> p" using ps prime_int_ge_2 by auto
    then show False using prime_int_iff_no_small_divisor[of x] x px p by auto
  qed
qed

lemma marks_takeWhile_base_primes:
  assumes sorted: "sorted ps" and ps: "set ps = {p. prime_int p \<and> p \<le> floor_sqrt N}"
    and x: "x \<le> high"
  shows "marks (set (takeWhile (\<lambda>p. p = 2 \<or> p * p \<le> high) ps)) x \<longleftrightarrow> marks (set ps) x"
proof -
  have "set (takeWhile (\<lambda>p. p = 2 \<or> p * p \<le> high) ps) = {p \<in> set ps. p = 2 \<or> p * p \<le> high}"
  proof (rule set_takeWhile_sorted[OF sorted])
    fix a b assume ab: "a \<in> set ps" "b \<in> set ps" "b \<le> a" "a = 2 \<or> a * a \<le> high"
    have b2: "2 \<le> b" using ab(2) ps prime_int_ge_2 by auto
    show "b = 2 \<or> b * b \<le> high"
    proof (cases "a = 2")
      case True then show ?thesis using ab(3) b2 by simp
    next
      case False
      have "b * b \<le> a * a" using ab(3) b2 by (intro mult_mono) auto
      then show ?thesis using ab(4) False by simp
    qed
  qed
  then show ?thesis using x by (auto simp: marks_def)
qed

lemma base_primes_ok:
  assumes "set ps = {p. prime_int p \<and> p \<le> n}"
  shows "\<forall>p\<in>set ps. p = 2 \<or> (0 < p \<and> odd p)"
  using assms prime_int_odd prime_int_ge_2 by fastforce

section \<open>Counting the survivors\<close>

lemma finite_primes_in: "finite {x \<in> {a..b}. prime_int x}"
  by (rule finite_subset[of _ "{a..b}"]) auto

lemma primes_between_empty: "b < a \<Longrightarrow> primes_between a b = 0"
  by (simp add: primes_between_def)

lemma primes_between_split:
  assumes "a \<le> b + 1" "b \<le> c"
  shows "primes_between a c = primes_between a b + primes_between (b + 1) c"
proof -
  have "{x \<in> {a..c}. prime_int x} = {x \<in> {a..b}. prime_int x} \<union> {x \<in> {b + 1..c}. prime_int x}"
    using assms by auto
  moreover have "{x \<in> {a..b}. prime_int x} \<inter> {x \<in> {b + 1..c}. prime_int x} = {}" by auto
  moreover have "finite {x \<in> {a..b}. prime_int x}" "finite {x \<in> {b + 1..c}. prime_int x}"
    using finite_primes_in by blast+
  ultimately have "card {x \<in> {a..c}. prime_int x} =
      card {x \<in> {a..b}. prime_int x} + card {x \<in> {b + 1..c}. prime_int x}"
    using card_Un_disjoint[of "{x \<in> {a..b}. prime_int x}" "{x \<in> {b + 1..c}. prime_int x}"]
    by presburger
  then show ?thesis by (simp add: primes_between_def)
qed

lemma prime_int_2: "prime_int 2"
  by (simp add: prime_int_def)

lemma prime_count_eq: "2 \<le> N \<Longrightarrow> prime_count N = 1 + primes_between 3 N"
proof -
  assume N: "2 \<le> N"
  have "{p \<in> {2..2}. prime_int p} = {2::int}" using prime_int_2 by auto
  then have "primes_between 2 2 = 1" by (simp add: primes_between_def)
  moreover have "primes_between 2 N = primes_between 2 2 + primes_between (2 + 1) N"
    using N by (intro primes_between_split) auto
  ultimately show ?thesis by (simp add: prime_count_def primes_between_def)
qed

lemma prime_count_small: "N < 2 \<Longrightarrow> prime_count N = 0"
  by (simp add: prime_count_def)

lemma count_survivors_eq:
  "count_survivors N low odd_count segment i cnt =
     cnt + int (length (filter (\<lambda>k. segment ! nat k \<and> low + 2 * k \<le> N) [i..odd_count - 1]))"
proof (induction N low odd_count segment i cnt rule: count_survivors.induct)
  case (1 N low odd_count segment i cnt)
  show ?case
  proof (cases "i < odd_count")
    case True
    then have "[i..odd_count - 1] = i # [i + 1..odd_count - 1]" by (simp add: upto_rec1)
    then show ?thesis using 1 True by (subst count_survivors.simps) simp
  next
    case False
    then show ?thesis by (subst count_survivors.simps) simp
  qed
qed

lemma survivors_card:
  assumes low: "3 \<le> low" "odd low" and hi: "high \<le> N"
    and oc: "odd_count = (high - low) div 2 + 1"
    and r: "\<And>k. 0 \<le> k \<Longrightarrow> k < odd_count \<Longrightarrow> r ! nat k = prime_int (low + 2 * k)"
  shows "int (length (filter (\<lambda>k. r ! nat k \<and> low + 2 * k \<le> N) [0..odd_count - 1])) =
         primes_between low high"
proof -
  let ?A = "{k. 0 \<le> k \<and> k \<le> odd_count - 1 \<and> prime_int (low + 2 * k)}"
  let ?B = "{x \<in> {low..high}. prime_int x}"
  have le: "low + 2 * k \<le> high" if "k < odd_count" for k
  proof -
    have "k \<le> (high - low) div 2" using that oc by simp
    then have "2 * k \<le> 2 * ((high - low) div 2)" by simp
    also have "\<dots> \<le> high - low" by (simp add: algebra_simps) 
    finally show ?thesis by simp
  qed
  have "length (filter (\<lambda>k. r ! nat k \<and> low + 2 * k \<le> N) [0..odd_count - 1]) =
        card ({k. r ! nat k \<and> low + 2 * k \<le> N} \<inter> set [0..odd_count - 1])"
    by (intro distinct_length_filter) simp
  also have "{k. r ! nat k \<and> low + 2 * k \<le> N} \<inter> set [0..odd_count - 1] = ?A"
    using r le hi by fastforce
  also have "card ?A = card ((\<lambda>k. low + 2 * k) ` ?A)"
    by (intro card_image[symmetric]) (auto simp: inj_on_def)
  also have "(\<lambda>k. low + 2 * k) ` ?A = ?B"
  proof (intro equalityI subsetI)
    fix x assume "x \<in> (\<lambda>k. low + 2 * k) ` ?A"
    then show "x \<in> ?B" using le by auto
  next
    fix x assume x: "x \<in> ?B"
    then have "odd x" using low prime_int_odd[of x] by auto
    then have "even (x - low)" using low by simp
    then have e: "x = low + 2 * ((x - low) div 2)" by simp
    have "(x - low) div 2 \<le> (high - low) div 2" using x by (intro zdiv_mono1) auto
    moreover have "0 \<le> (x - low) div 2" using x by simp
    ultimately have "(x - low) div 2 \<in> ?A" using x oc e by auto
    then show "x \<in> (\<lambda>k. low + 2 * k) ` ?A" using e by blast
  qed
  finally show ?thesis by (simp add: primes_between_def)
qed

section \<open>\<^verbatim>\<open>sieve_serial\<close> counts the primes\<close>

lemma segment_survivors:
  assumes bp: "base_primes_of N ps" and N: "0 \<le> N"
    and low: "3 \<le> low" "odd low" "low \<le> high" and hi: "high \<le> N"
    and oc: "odd_count = (high - low) div 2 + 1"
  shows "\<exists>r. mark_base_primes_serial low high odd_count ps (replicate (nat odd_count) True)
               = Some (Inr r) \<and> length r = nat odd_count \<and>
             (\<forall>k. 0 \<le> k \<and> k < odd_count \<longrightarrow> r ! nat k = prime_int (low + 2 * k))"
proof -
  have ps: "set ps = {p. prime_int p \<and> p \<le> floor_sqrt N}" and sorted: "sorted ps"
    using bp by (simp_all add: base_primes_of_def)
  have oc0: "0 < odd_count" using oc low by simp
  have len: "int (length (replicate (nat odd_count) True)) = odd_count" using oc0 by simp
  have low0: "0 \<le> low" using low by simp
  from mark_base_primes_serial_result[OF base_primes_ok[OF ps] low0 low(2) len oc]
  obtain r where r: "mark_base_primes_serial low high odd_count ps (replicate (nat odd_count) True)
               = Some (Inr r)" "length r = nat odd_count"
    and rk: "\<And>k. k < nat odd_count \<Longrightarrow> r ! k =
              (\<not> marks (set (takeWhile (\<lambda>p. p = 2 \<or> p * p \<le> high) ps)) (low + 2 * int k))"
    by auto
  have "r ! nat k = prime_int (low + 2 * k)" if k: "0 \<le> k" "k < odd_count" for k
  proof -
    have "k \<le> (high - low) div 2" using k oc by simp
    then have "2 * k \<le> 2 * ((high - low) div 2)" by simp
    also have "\<dots> \<le> high - low" by (simp add: algebra_simps) 
    finally have le: "low + 2 * k \<le> high" by simp
    have "r ! nat k = (\<not> marks (set (takeWhile (\<lambda>p. p = 2 \<or> p * p \<le> high) ps)) (low + 2 * k))"
      using rk[of "nat k"] k by simp
    also have "\<dots> = (\<not> marks (set ps) (low + 2 * k))"
      using marks_takeWhile_base_primes[OF sorted ps le] by simp
    also have "\<dots> = prime_int (low + 2 * k)"
      using marks_base_primes_iff[OF ps N, of "low + 2 * k"] low k le hi by simp
    finally show ?thesis .
  qed
  then show ?thesis using r by blast
qed

lemma serial_segment_result:
  assumes bp: "base_primes_of N ps" and N: "0 \<le> N"
    and low: "3 \<le> low" "odd low" "low \<le> high" and hi: "high \<le> N"
  shows "serial_segment N ps low high cnt = Some (Inr (cnt + primes_between low high))"
proof -
  define odd_count where "odd_count = (high - low) div 2 + 1"
  have oc_s: "((high - low) sdiv 2) + 1 = odd_count" using low by (simp add: odd_count_def sdiv_nonneg)
  have oc0: "0 < odd_count" using low by (simp add: odd_count_def)
  from segment_survivors[OF bp N low hi odd_count_def]
  obtain r where r: "mark_base_primes_serial low high odd_count ps (replicate (nat odd_count) True)
               = Some (Inr r)"
    and rk: "\<And>k. 0 \<le> k \<Longrightarrow> k < odd_count \<Longrightarrow> r ! nat k = prime_int (low + 2 * k)"
    by blast
  have "count_survivors N low odd_count r 0 cnt = cnt + primes_between low high"
    using survivors_card[OF low(1,2) hi odd_count_def rk] by (simp add: count_survivors_eq)
  then show ?thesis using r oc0 by (simp add: serial_segment_def oc_s vector_bool_def)
qed

lemma serial_segments_result:
  assumes bp: "base_primes_of N ps" and W: "0 < W" "even W"
    and low: "3 \<le> low" "odd low"
  shows "serial_segments W N ps low cnt = Some (Inr (cnt + primes_between low N))"
  using low
proof (induction "nat (N + 1 - low)" arbitrary: low cnt rule: less_induct)
  case less
  show ?case
  proof (cases "low \<le> N")
    case False
    then show ?thesis by (subst serial_segments.simps) (simp add: primes_between_empty)
  next
    case True
    define high where "high = segment_high W N low"
    have N: "0 \<le> N" using True less.prems by simp
    have hl: "low \<le> high" "high \<le> N" using True W by (simp_all add: high_def segment_high_def)
    have odd: "low smod 2 \<noteq> 0" using less.prems by (simp add: smod_2_eq_0_iff)
    have m: "nat (N + 1 - (low + W)) < nat (N + 1 - low)" using True W by simp
    have l': "3 \<le> low + W" "odd (low + W)" using less.prems W by auto
    have seg: "serial_segment N ps low high cnt = Some (Inr (cnt + primes_between low high))"
      using serial_segment_result[OF bp N less.prems hl] .
    have step: "serial_segments W N ps low cnt =
          serial_segments W N ps (low + W) (cnt + primes_between low high)"
      using True odd hl seg by (subst serial_segments.simps) (simp add: high_def[symmetric] Let_def)
    have rest: "serial_segments W N ps (low + W) (cnt + primes_between low high) =
          Some (Inr (cnt + primes_between low high + primes_between (low + W) N))"
      using less.hyps[OF m l'] .
    have "primes_between low high + primes_between (low + W) N = primes_between low N"
    proof (cases "low + W - 1 \<le> N")
      case a: True
      then have "high = low + W - 1" by (simp add: high_def segment_high_def)
      then show ?thesis using primes_between_split[of low "low + W - 1" N] a W by simp
    next
      case b: False
      then have "high = N" by (simp add: high_def segment_high_def)
      then show ?thesis using b by (simp add: primes_between_empty)
    qed
    then show ?thesis unfolding step rest by simp
  qed
qed

lemma base_primes_of_primes_upto: "base_primes_of N (primes_upto (floor_sqrt N))"
  using sorted_primes_upto[of "floor_sqrt N"]
  by (simp add: base_primes_of_def set_primes_upto strict_sorted_iff)

text \<open>
  The limit \<open>floor_sqrt N\<close> is below \<open>INT_MAX\<close> exactly when \<open>N\<close> is below
  \<open>INT_MAX * INT_MAX = 4611686014132420609\<close>; from there on \<^verbatim>\<open>limit + 1\<close> overflows, and
  from \<open>2 ^ 62\<close> on the conversion to \<^verbatim>\<open>int\<close> already does.
\<close>

lemma floor_sqrt_less_INT_MAX:
  assumes "0 \<le> N"
  shows "floor_sqrt N < INT_MAX \<longleftrightarrow> N < 4611686014132420609"
  using le_floor_sqrt_iff[OF assms, of INT_MAX] by (auto simp: INT_MAX_def)

lemma int_cast_floor_sqrt:
  assumes "0 \<le> N" "floor_sqrt N \<le> INT_MAX"
  shows "int_cast (floor_sqrt N) = Inr (floor_sqrt N)"
  using assms floor_sqrt_bounds(1)[OF assms(1)] by (simp add: int_cast_def INT_MIN_def)

lemma base_primes_computed:
  assumes "0 \<le> N" "N < 4611686014132420609"
  shows "int_cast (floor_sqrt N) = Inr (floor_sqrt N)"
    and "simple_sieve (floor_sqrt N) = Some (Inr (primes_upto (floor_sqrt N)))"
proof -
  have lt: "floor_sqrt N < INT_MAX" using floor_sqrt_less_INT_MAX[OF assms(1)] assms(2) by simp
  show "int_cast (floor_sqrt N) = Inr (floor_sqrt N)"
    using int_cast_floor_sqrt[OF assms(1)] lt by simp
  show "simple_sieve (floor_sqrt N) = Some (Inr (primes_upto (floor_sqrt N)))"
    using simple_sieve_eq[OF floor_sqrt_bounds(1)[OF assms(1)] lt] .
qed

lemma base_primes_overflow:
  assumes "4611686014132420609 \<le> N"
  shows "(case int_cast (floor_sqrt N) of
            Inl e \<Rightarrow> Some (Inl e)
          | Inr limit \<Rightarrow>
              (case simple_sieve limit of
                 None \<Rightarrow> None
               | Some (Inl e) \<Rightarrow> Some (Inl e)
               | Some (Inr base_primes) \<Rightarrow> f base_primes)) = Some (Inl Overflow)"
proof -
  have N: "0 \<le> N" using assms by simp
  have ge: "INT_MAX \<le> floor_sqrt N" using floor_sqrt_less_INT_MAX[OF N] assms by simp
  show ?thesis
  proof (cases "floor_sqrt N \<le> INT_MAX")
    case True
    then show ?thesis
      using int_cast_floor_sqrt[OF N True] simple_sieve_overflow[OF ge] by simp
  next
    case False
    then show ?thesis by (simp add: int_cast_def)
  qed
qed

lemma sieve_serial_W_eq:
  assumes "0 < W" "even W" "N < 4611686014132420609"
  shows "sieve_serial_W W N = Some (Inr (prime_count N))"
proof (cases "N < 2")
  case True
  then show ?thesis by (simp add: sieve_serial_W_def prime_count_small)
next
  case False
  then have N: "0 \<le> N" by simp
  note s = base_primes_computed[OF N assms(3)]
  have "serial_segments W N (primes_upto (floor_sqrt N)) 3 1 = Some (Inr (1 + primes_between 3 N))"
    using serial_segments_result[OF base_primes_of_primes_upto assms(1,2)] by simp
  then show ?thesis using False s by (simp add: sieve_serial_W_def prime_count_eq)
qed

lemma sieve_serial_W_overflow:
  assumes "4611686014132420609 \<le> N"
  shows "sieve_serial_W W N = Some (Inl Overflow)"
  using assms base_primes_overflow[OF assms] by (simp add: sieve_serial_W_def)

section \<open>Evaluating the prime count\<close>

lemma no_divisor_from_iff:
  "2 \<le> d \<Longrightarrow> no_divisor_from d n \<longleftrightarrow> \<not> (\<exists>e. d \<le> e \<and> e * e \<le> n \<and> e dvd n)"
proof (induction d n rule: no_divisor_from.induct)
  case (1 d n)
  show ?case
  proof (cases "d * d \<le> n")
    case False
    have "\<not> e * e \<le> n" if "d \<le> e" for e
    proof -
      have "d * d \<le> e * e" using that 1(2) by (intro mult_mono) auto
      then show ?thesis using False by linarith
    qed
    then show ?thesis using False by (subst no_divisor_from.simps) auto
  next
    case True
    have ih: "no_divisor_from (d + 1) n \<longleftrightarrow> \<not> (\<exists>e. d + 1 \<le> e \<and> e * e \<le> n \<and> e dvd n)"
      using 1 True by simp
    have "(\<exists>e. d \<le> e \<and> e * e \<le> n \<and> e dvd n) \<longleftrightarrow>
          d dvd n \<or> (\<exists>e. d + 1 \<le> e \<and> e * e \<le> n \<and> e dvd n)"
    proof -
      have "d \<le> e \<longleftrightarrow> e = d \<or> d + 1 \<le> e" for e by auto
      then show ?thesis using True by auto
    qed
    then show ?thesis using True 1(2) ih by (subst no_divisor_from.simps) auto
  qed
qed

lemma prime_int_code [code]: "prime_int n \<longleftrightarrow> 2 \<le> n \<and> no_divisor_from 2 n"
  using prime_int_iff_no_small_divisor[of n] no_divisor_from_iff[of 2 n]
  by (auto simp: prime_int_def)

lemma primes_between_list: "primes_between a b = int (length (filter prime_int [a..b]))"
proof -
  have "length (filter prime_int [a..b]) = card ({x. prime_int x} \<inter> set [a..b])"
    by (intro distinct_length_filter) simp
  also have "{x. prime_int x} \<inter> set [a..b] = {x \<in> {a..b}. prime_int x}" by auto
  finally show ?thesis by (simp add: primes_between_def)
qed

lemma prime_count_list: "prime_count N = int (length (primes_upto N))"
  using primes_between_list[of 2 N] by (simp add: prime_count_def primes_between_def primes_upto_def)

section \<open>The parallel loop\<close>

lemma even_not_prime: "even x \<Longrightarrow> 3 \<le> x \<Longrightarrow> \<not> prime_int x"
  using prime_int_odd[of x] by auto

lemma primes_between_drop_even:
  assumes "even a" "3 \<le> a"
  shows "primes_between a b = primes_between (a + 1) b"
proof -
  have "{x \<in> {a..b}. prime_int x} = {x \<in> {a + 1..b}. prime_int x}"
  proof (intro equalityI subsetI)
    fix x assume x: "x \<in> {x \<in> {a..b}. prime_int x}"
    then have "x \<noteq> a" using even_not_prime[OF assms] by auto
    then show "x \<in> {x \<in> {a + 1..b}. prime_int x}" using x by auto
  qed auto
  then show ?thesis by (simp add: primes_between_def)
qed

lemma openmp_marked_segment:
  assumes bp: "base_primes_of N ps" and N: "0 \<le> N"
    and low: "3 \<le> low" "odd low" "low \<le> high" and hi: "high \<le> N"
    and oc: "odd_count = (high - low) div 2 + 1"
  shows "\<exists>r. mark_base_primes_openmp low high ps (replicate (nat odd_count) True) = Some (Inr r) \<and>
           count_survivors N low odd_count r 0 cnt = cnt + primes_between low high"
proof -
  have ps: "set ps = {p. prime_int p \<and> p \<le> floor_sqrt N}"
    using bp by (simp add: base_primes_of_def)
  have oc0: "0 < odd_count" using low oc by simp
  from segment_survivors[OF bp N low hi oc]
  obtain r where r: "mark_base_primes_serial low high odd_count ps (replicate (nat odd_count) True)
               = Some (Inr r)"
    and rk: "\<And>k. 0 \<le> k \<Longrightarrow> k < odd_count \<Longrightarrow> r ! nat k = prime_int (low + 2 * k)"
    by blast
  have len: "int (length (replicate (nat odd_count) True)) = (high - low) div 2 + 1"
    using oc0 oc by simp
  have low0: "0 \<le> low" using low by simp
  have "mark_base_primes_openmp low high ps (replicate (nat odd_count) True) = Some (Inr r)"
    using mark_base_primes_openmp_eq_serial[OF base_primes_ok[OF ps] low0 low(2) len] r oc0
    by simp
  moreover have "count_survivors N low odd_count r 0 cnt = cnt + primes_between low high"
    using survivors_card[OF low(1,2) hi oc rk] by (simp add: count_survivors_eq)
  ultimately show ?thesis by blast
qed

lemma segment_bounds:
  assumes W: "1 \<le> W" and k: "0 \<le> k" "segment_low W k \<le> N"
  shows "3 \<le> segment_low W k" "segment_low W k \<le> segment_high W N (segment_low W k)"
    "segment_high W N (segment_low W k) \<le> N"
proof -
  have "0 \<le> k * W" using W k by simp
  then show "3 \<le> segment_low W k" by (simp add: segment_low_def)
  show "segment_low W k \<le> segment_high W N (segment_low W k)"
    using W k by (simp add: segment_high_def)
  show "segment_high W N (segment_low W k) \<le> N" by (simp add: segment_high_def)
qed

lemma openmp_segment_result:
  assumes bp: "base_primes_of N ps" and W: "1 \<le> W" and k: "0 \<le> k" "segment_low W k \<le> N"
  shows "openmp_segment W N ps k =
         Some (Inr (primes_between (segment_low W k) (segment_high W N (segment_low W k))))"
proof -
  define low0 where "low0 = segment_low W k"
  define high where "high = segment_high W N low0"
  note b = segment_bounds[OF W k, folded low0_def, folded high_def]
  have N: "0 \<le> N" using b by simp
  show ?thesis
  proof (cases "even low0")
    case False
    define odd_count where "odd_count = (high - low0) div 2 + 1"
    have oc_s: "((high - low0) sdiv 2) + 1 = odd_count" using b by (simp add: odd_count_def sdiv_nonneg)
    have oc0: "0 < odd_count" using b by (simp add: odd_count_def)
    from openmp_marked_segment[OF bp N b(1) False b(2,3) odd_count_def, of 0]
    obtain r where "mark_base_primes_openmp low0 high ps (replicate (nat odd_count) True) = Some (Inr r)"
      "count_survivors N low0 odd_count r 0 0 = primes_between low0 high" by auto
    then show ?thesis using False b oc0
      by (simp add: openmp_segment_def low0_def[symmetric] high_def[symmetric] Let_def
          smod_2_eq_0_iff oc_s vector_bool_def)
  next
    case True
    show ?thesis
    proof (cases "low0 + 1 > high")
      case skip: True
      then have "high = low0" using b by simp
      then have "primes_between low0 high = 0"
        using primes_between_drop_even[OF True b(1), of high] by (simp add: primes_between_empty)
      then show ?thesis using True skip
        by (simp add: openmp_segment_def low0_def[symmetric] high_def[symmetric] Let_def
            smod_2_eq_0_iff)
    next
      case False
      define odd_count where "odd_count = (high - (low0 + 1)) div 2 + 1"
      have oc_s: "((high - (low0 + 1)) sdiv 2) + 1 = odd_count"
        using False by (simp add: odd_count_def sdiv_nonneg)
      have oc0: "0 < odd_count" using False by (simp add: odd_count_def)
      have l: "3 \<le> low0 + 1" "odd (low0 + 1)" "low0 + 1 \<le> high" using b True False by auto
      from openmp_marked_segment[OF bp N l b(3) odd_count_def, of 0]
      obtain r where "mark_base_primes_openmp (low0 + 1) high ps (replicate (nat odd_count) True)
           = Some (Inr r)"
        "count_survivors N (low0 + 1) odd_count r 0 0 = primes_between (low0 + 1) high" by auto
      then show ?thesis using True False oc0 primes_between_drop_even[OF True b(1), of high]
        by (simp add: openmp_segment_def low0_def[symmetric] high_def[symmetric] Let_def
            smod_2_eq_0_iff oc_s vector_bool_def)
    qed
  qed
qed

lemma openmp_thread_result:
  assumes bp: "base_primes_of N ps" and W: "1 \<le> W"
    and ids: "\<forall>k\<in>set seg_ids. 0 \<le> k \<and> segment_low W k \<le> N"
  shows "openmp_thread W N ps seg_ids tot =
         Some (Inr (tot + sum_list (map (\<lambda>k. primes_between (segment_low W k)
                      (segment_high W N (segment_low W k))) seg_ids)))"
  using ids
proof (induction seg_ids arbitrary: tot)
  case Nil
  then show ?case by simp
next
  case (Cons k seg_ids)
  have "openmp_segment W N ps k =
         Some (Inr (primes_between (segment_low W k) (segment_high W N (segment_low W k))))"
    using openmp_segment_result[OF bp W] Cons.prems by simp
  then show ?case using Cons by (simp add: add.assoc)
qed

lemma openmp_reduction_result:
  assumes bp: "base_primes_of N ps" and W: "1 \<le> W"
    and ids: "\<forall>k\<in>set (concat schedule). 0 \<le> k \<and> segment_low W k \<le> N"
  shows "openmp_reduction W N ps schedule tot =
         Some (Inr (tot + sum_list (map (\<lambda>k. primes_between (segment_low W k)
                      (segment_high W N (segment_low W k))) (concat schedule))))"
  using ids
proof (induction schedule arbitrary: tot)
  case Nil
  then show ?case by simp
next
  case (Cons seg_ids schedule)
  have "openmp_thread W N ps seg_ids 0 =
         Some (Inr (0 + sum_list (map (\<lambda>k. primes_between (segment_low W k)
                      (segment_high W N (segment_low W k))) seg_ids)))"
    using openmp_thread_result[OF bp W, of seg_ids 0] Cons.prems by simp
  then show ?case using Cons by (simp add: add.assoc)
qed

lemma num_segments_bounds:
  assumes W: "1 \<le> W" and N: "3 \<le> N"
  shows "num_segments W N = (N - 3 + W) div W" "1 \<le> num_segments W N"
    "(num_segments W N - 1) * W \<le> N - 3" "N - 3 < num_segments W N * W"
proof -
  let ?n = "(N - 3 + W) div W"
  have "N - 3 + 1 + W - 1 = N - 3 + W" by simp
  then show eq: "num_segments W N = ?n" using W N by (simp only: num_segments_def) (simp add: sdiv_nonneg)
  have dm: "N - 3 + W = ?n * W + (N - 3 + W) mod W" by (rule div_mult_mod_eq[symmetric])
  have r: "0 \<le> (N - 3 + W) mod W" "(N - 3 + W) mod W < W"
    using W pos_mod_sign[of W "N - 3 + W"] pos_mod_bound[of W "N - 3 + W"] by linarith+
  have a: "?n * W \<le> N - 3 + W" using dm r by linarith
  have b: "N - 3 + W < ?n * W + W" using dm r by linarith
  show "(num_segments W N - 1) * W \<le> N - 3" using a unfolding eq by (simp add: algebra_simps)
  show "N - 3 < num_segments W N * W" using b unfolding eq by simp
  have "0 < ?n * W" using b N by linarith
  then have "0 < ?n" using W by (simp add: zero_less_mult_iff)
  then show "1 \<le> num_segments W N" unfolding eq by simp
qed

lemma segment_in_range:
  assumes W: "1 \<le> W" and N: "3 \<le> N" and k: "0 \<le> k" "k < num_segments W N"
  shows "segment_low W k \<le> N"
proof -
  have "k * W \<le> (num_segments W N - 1) * W" using k W by (intro mult_right_mono) auto
  then show ?thesis using num_segments_bounds(3)[OF W N] by (simp add: segment_low_def)
qed

lemma segments_sum:
  assumes W: "1 \<le> W" and N: "3 \<le> N"
  shows "int m \<le> num_segments W N \<Longrightarrow>
         sum_list (map (\<lambda>k. primes_between (segment_low W k) (segment_high W N (segment_low W k)))
                    [0..int m - 1]) =
         primes_between 3 (min (3 + int m * W - 1) N)"
proof (induction m)
  case 0
  then show ?case using N by (simp add: primes_between_empty)
next
  case (Suc m)
  have m: "0 \<le> int m" "int m < num_segments W N" using Suc.prems by auto
  have inr: "segment_low W (int m) \<le> N" using segment_in_range[OF W N m] .
  then have mn: "min (3 + int m * W - 1) N = 3 + int m * W - 1" by (simp add: segment_low_def)
  have up: "[0..int (Suc m) - 1] = [0..int m - 1] @ [int m]"
    using upto_rec2[of 0 "int m"] by simp
  have ih: "sum_list (map (\<lambda>k. primes_between (segment_low W k) (segment_high W N (segment_low W k)))
                    [0..int m - 1]) = primes_between 3 (3 + int m * W - 1)"
    using Suc.IH m mn by simp
  have hi: "segment_high W N (segment_low W (int m)) = min (3 + int (Suc m) * W - 1) N"
    by (simp add: segment_high_def segment_low_def algebra_simps)
  have lo: "segment_low W (int m) = (3 + int m * W - 1) + 1" by (simp add: segment_low_def)
  have "primes_between 3 (min (3 + int (Suc m) * W - 1) N) =
        primes_between 3 (3 + int m * W - 1) +
        primes_between ((3 + int m * W - 1) + 1) (min (3 + int (Suc m) * W - 1) N)"
  proof (rule primes_between_split)
    have "0 \<le> int m * W" using W by simp
    then show "3 \<le> 3 + int m * W - 1 + 1" by simp
    show "3 + int m * W - 1 \<le> min (3 + int (Suc m) * W - 1) N"
      using inr W by (simp add: segment_low_def algebra_simps)
  qed
  then show ?case unfolding up using ih hi lo by simp
qed

lemma segments_sum_all:
  assumes W: "1 \<le> W" and N: "3 \<le> N"
  shows "sum_list (map (\<lambda>k. primes_between (segment_low W k) (segment_high W N (segment_low W k)))
                    [0..num_segments W N - 1]) = primes_between 3 N"
proof -
  note nb = num_segments_bounds[OF W N]
  define m where "m = nat (num_segments W N)"
  have m: "int m = num_segments W N" using nb(2) by (simp add: m_def)
  have "min (3 + int m * W - 1) N = N" using nb(4) m by simp
  then show ?thesis using segments_sum[OF W N, of m] m by simp
qed

lemma sum_list_mset_cong:
  fixes f :: "int \<Rightarrow> int"
  assumes "mset xs = mset ys"
  shows "sum_list (map f xs) = sum_list (map f ys)"
proof -
  have "sum_list (map f xs) = sum_mset (mset (map f xs))" by (rule sum_mset_sum_list[symmetric])
  also have "mset (map f xs) = mset (map f ys)" using assms by simp
  also have "sum_mset (mset (map f ys)) = sum_list (map f ys)" by (rule sum_mset_sum_list)
  finally show ?thesis .
qed

lemma sieve_openmp_W_eq:
  assumes W: "1 \<le> W" and v: "valid_schedule T (num_segments W N) schedule"
    and b: "N < 4611686014132420609"
  shows "sieve_openmp_W W N T schedule = Some (Inr (prime_count N))"
proof (cases "N < 2")
  case True
  then show ?thesis by (simp add: sieve_openmp_W_def prime_count_small)
next
  case False
  then have N0: "0 \<le> N" by simp
  note s = base_primes_computed[OF N0 b]
  show ?thesis
  proof (cases "N = 2")
    case True
    then show ?thesis using s prime_count_eq[of 2]
      by (simp add: sieve_openmp_W_def primes_between_empty)
  next
    case n2: False
    then have N: "3 \<le> N" using False by simp
    have ms: "mset (concat schedule) = mset [0..num_segments W N - 1]"
      using v by (simp add: valid_schedule_def)
    then have "set (concat schedule) = set [0..num_segments W N - 1]" by (rule mset_eq_setD)
    then have ids: "\<forall>k\<in>set (concat schedule). 0 \<le> k \<and> segment_low W k \<le> N"
      using segment_in_range[OF W N] by auto
    have "openmp_reduction W N (primes_upto (floor_sqrt N)) schedule 1 =
          Some (Inr (1 + primes_between 3 N))"
      using openmp_reduction_result[OF base_primes_of_primes_upto W ids, of 1]
        sum_list_mset_cong[OF ms] segments_sum_all[OF W N] by simp
    then show ?thesis using False N W s by (simp add: sieve_openmp_W_def prime_count_eq)
  qed
qed

lemma sieve_openmp_W_overflow:
  assumes "4611686014132420609 \<le> N"
  shows "sieve_openmp_W W N T schedule = Some (Inl Overflow)"
  using assms base_primes_overflow[OF assms] by (simp add: sieve_openmp_W_def)

section \<open>Early termination\<close>

lemma segment_buffers_agree:
  assumes bp: "base_primes_of N ps" and low: "3 \<le> low" "odd low" "low \<le> high" and hi: "high \<le> N"
    and oc: "odd_count = (high - low) div 2 + 1"
  shows "\<exists>r. mark_base_primes_serial low high odd_count ps (replicate (nat odd_count) True)
                = Some (Inr r) \<and>
             mark_all_base_primes_serial low high odd_count ps (replicate (nat odd_count) True)
                = Some (Inr r) \<and>
             mark_base_primes_openmp low high ps (replicate (nat odd_count) True) = Some (Inr r) \<and>
             mark_all_base_primes_openmp low high ps (replicate (nat odd_count) True)
                = Some (Inr r) \<and>
             length r = nat odd_count \<and>
             (\<forall>k. 0 \<le> k \<and> k < odd_count \<longrightarrow> r ! nat k = prime_int (low + 2 * k))"
proof -
  have N: "0 \<le> N" using low hi by simp
  have ps: "set ps = {p. prime_int p \<and> p \<le> floor_sqrt N}" and sorted: "sorted ps"
    using bp by (simp_all add: base_primes_of_def)
  have oc0: "0 < odd_count" using oc low by simp
  let ?s = "replicate (nat odd_count) True"
  have len: "int (length ?s) = odd_count" using oc0 by simp
  have len': "int (length ?s) = (high - low) div 2 + 1" using len oc by simp
  have low0: "0 \<le> low" using low by simp
  note ok = base_primes_ok[OF ps]
  from segment_survivors[OF bp N low hi oc]
  obtain r where r: "mark_base_primes_serial low high odd_count ps ?s = Some (Inr r)"
    "length r = nat odd_count"
    and rk: "\<And>k. 0 \<le> k \<and> k < odd_count \<Longrightarrow> r ! nat k = prime_int (low + 2 * k)"
    by blast
  from mark_all_base_primes_serial_result[OF ok low0 low(2) len oc]
  obtain r' where r': "mark_all_base_primes_serial low high odd_count ps ?s = Some (Inr r')"
    "length r' = nat odd_count"
    and rk': "\<And>k. k < nat odd_count \<Longrightarrow> r' ! k = (\<not> marks (set ps) (low + 2 * int k))"
    by auto
  have "r' = r"
  proof (rule nth_equalityI)
    show "length r' = length r" using r r' by simp
  next
    fix i assume "i < length r'"
    then have i: "i < nat odd_count" using r' by simp
    then have le: "low + 2 * int i \<le> N"
    proof -
      have "int i \<le> (high - low) div 2" using i oc by simp
      then have "2 * int i \<le> 2 * ((high - low) div 2)" by simp
      also have "\<dots> \<le> high - low" by (simp add: algebra_simps)
      finally show ?thesis using hi by simp
    qed
    have "r' ! i = prime_int (low + 2 * int i)"
      using rk'[OF i] marks_base_primes_iff[OF ps N, of "low + 2 * int i"] low le by simp
    moreover have "r ! i = prime_int (low + 2 * int i)" using rk[of "int i"] i by simp
    ultimately show "r' ! i = r ! i" by simp
  qed
  moreover have "mark_base_primes_openmp low high ps ?s = Some (Inr r)"
    using mark_base_primes_openmp_eq_serial[OF ok low0 low(2) len'] r len by simp
  moreover have "mark_all_base_primes_openmp low high ps ?s = Some (Inr r')"
    using mark_all_base_primes_openmp_eq_serial[OF ok low0 low(2) len'] r' len by simp
  ultimately show ?thesis using r r' rk by blast
qed

lemma survivors_set:
  assumes low: "3 \<le> low" "odd low" "low \<le> high"
    and len: "length r = nat ((high - low) div 2 + 1)"
    and rk: "\<And>k. 0 \<le> k \<and> k < (high - low) div 2 + 1 \<Longrightarrow> r ! nat k = prime_int (low + 2 * k)"
  shows "{low + 2 * int i | i. i < length r \<and> r ! i} = {x \<in> {low..high}. prime_int x}"
proof (intro equalityI subsetI)
  fix x assume "x \<in> {low + 2 * int i | i. i < length r \<and> r ! i}"
  then obtain i where i: "x = low + 2 * int i" "i < length r" "r ! i" by blast
  have "int i \<le> (high - low) div 2" using i len low by simp
  then have "2 * int i \<le> 2 * ((high - low) div 2)" by simp
  also have "\<dots> \<le> high - low" by (simp add: algebra_simps)
  finally have "x \<le> high" using i by simp
  moreover have "prime_int x" using rk[of "int i"] i len low by simp
  ultimately show "x \<in> {x \<in> {low..high}. prime_int x}" using i by simp
next
  fix x assume x: "x \<in> {x \<in> {low..high}. prime_int x}"
  then have "odd x" using low prime_int_odd[of x] by auto
  then have "even (x - low)" using low by simp
  then have e: "x = low + 2 * ((x - low) div 2)" by simp
  define i where "i = nat ((x - low) div 2)"
  have i0: "0 \<le> (x - low) div 2" using x by simp
  have i1: "(x - low) div 2 \<le> (high - low) div 2" using x by (intro zdiv_mono1) auto
  have "x = low + 2 * int i" using e i0 by (simp add: i_def)
  moreover have "i < length r" using i0 i1 len low by (simp add: i_def)
  moreover have "r ! i" using rk[of "(x - low) div 2"] i0 i1 x e by (simp add: i_def)
  ultimately show "x \<in> {low + 2 * int i | i. i < length r \<and> r ! i}" by blast
qed

section \<open>The unguarded write\<close>

lemma simple_sieve_returns:
  assumes "simple_sieve limit = Some (Inr base_primes)"
  shows "base_primes = primes_upto limit"
proof (cases "0 \<le> limit")
  case True
  show ?thesis
  proof (cases "limit < INT_MAX")
    case lt: True
    then show ?thesis using assms simple_sieve_eq[OF True lt] by simp
  next
    case False
    then show ?thesis using assms simple_sieve_overflow[of limit] by simp
  qed
next
  case False
  then have "limit < 0" by simp
  then show ?thesis
    using assms simple_sieve_negative[of limit] primes_upto_empty[of limit]
    by (simp split: if_splits)
qed

lemma simple_sieve_members:
  assumes "simple_sieve limit = Some (Inr base_primes)" "p \<in> set base_primes"
  shows "prime_int p"
  using assms(2) simple_sieve_returns[OF assms(1)] set_primes_upto[of limit] by simp

lemma first_odd_multiple_ge_low:
  assumes "0 < p" "0 \<le> low"
  shows "low \<le> first_odd_multiple low p"
proof -
  have "low \<le> max (p * p) (first_multiple low p)"
    using first_multiple_props(2)[OF assms] by simp
  then show ?thesis using assms(1) by (simp add: first_odd_multiple_def Let_def)
qed

lemma openmp_marking_in_bounds:
  assumes p: "0 < p" and low: "0 \<le> low" "low \<le> high"
    and len: "int (length segment) = (high - low) sdiv 2 + 1"
  shows "low \<le> first_odd_multiple low p \<and>
         (\<forall>m. 0 \<le> m \<and> first_odd_multiple low p + m * (2 * p) \<le> high \<longrightarrow>
              0 \<le> (first_odd_multiple low p + m * (2 * p) - low) sdiv 2 \<and>
              (first_odd_multiple low p + m * (2 * p) - low) sdiv 2 < (high - low) sdiv 2 + 1) \<and>
         (\<exists>r. mark_odd_multiples_openmp p low high (first_odd_multiple low p) segment
                  = Some (Inr r) \<and>
              mark_odd_multiples_serial p low high ((high - low) sdiv 2 + 1)
                  (first_odd_multiple low p) segment = Some r)"
proof -
  let ?s = "first_odd_multiple low p"
  have s: "low \<le> ?s" using first_odd_multiple_ge_low[OF p low(1)] .
  have hl: "(high - low) sdiv 2 = (high - low) div 2" using low by (simp add: sdiv_nonneg)
  have idx: "0 \<le> (?s + m * (2 * p) - low) sdiv 2 \<and>
             (?s + m * (2 * p) - low) sdiv 2 < (high - low) sdiv 2 + 1"
    if m: "0 \<le> m" "?s + m * (2 * p) \<le> high" for m
  proof -
    let ?x = "?s + m * (2 * p)"
    have "0 \<le> m * (2 * p)" using m p by simp
    then have x: "low \<le> ?x" using s by linarith
    then have e: "(?x - low) sdiv 2 = (?x - low) div 2" by (simp add: sdiv_nonneg)
    have "(?x - low) div 2 \<le> (high - low) div 2" using m(2) by (intro zdiv_mono1) auto
    moreover have "0 \<le> (?x - low) div 2" using x by simp
    ultimately show ?thesis unfolding e hl by simp
  qed
  have len': "int (length segment) = (high - low) div 2 + 1" using len hl by simp
  then have lt: "(high - low) div 2 < int (length segment)" by simp
  have "(high - low) div 2 < (high - low) div 2 + 1" by simp
  from mark_odd_multiples_serial_result[OF p s len' this]
  obtain r where r: "mark_odd_multiples_serial p low high ((high - low) div 2 + 1) ?s segment = Some r"
    by auto
  have "mark_odd_multiples_openmp p low high ?s segment = Some (Inr r)"
    using mark_odd_multiples_openmp_eq_serial[OF p s lt] r len' by simp
  then show ?thesis using s idx r unfolding hl by blast
qed

section \<open>The partition into segments\<close>

lemma num_segments_ceiling:
  assumes W: "1 \<le> W" and N: "3 \<le> N"
  shows "num_segments W N = \<lceil>real_of_int (N - 3 + 1) / real_of_int W\<rceil>"
proof -
  note nb = num_segments_bounds[OF W N]
  let ?n = "num_segments W N"
  have Wr: "0 < real_of_int W" using W by simp
  have "N - 3 + 1 \<le> ?n * W" using nb(4) by simp
  then have "real_of_int (N - 3 + 1) \<le> real_of_int (?n * W)" by (simp only: of_int_le_iff)
  then have up: "real_of_int (N - 3 + 1) / real_of_int W \<le> real_of_int ?n"
    using Wr by (simp add: pos_divide_le_eq)
  have "(?n - 1) * W < N - 3 + 1" using nb(3) by simp
  then have "real_of_int ((?n - 1) * W) < real_of_int (N - 3 + 1)"
    by (simp only: of_int_less_iff)
  then have lo: "real_of_int ?n - 1 < real_of_int (N - 3 + 1) / real_of_int W"
    using Wr by (simp add: pos_less_divide_eq)
  show ?thesis using up lo by (intro ceiling_unique[symmetric]) auto
qed

lemma segment_of_number:
  assumes W: "1 \<le> W" and N: "3 \<le> N" and x: "3 \<le> x" "x \<le> N"
  shows "\<exists>!k. 0 \<le> k \<and> k < num_segments W N \<and> segment_low W k \<le> x \<and>
              x \<le> segment_high W N (segment_low W k)"
proof -
  note nb = num_segments_bounds[OF W N]
  have inside: "segment_low W k \<le> x \<and> x \<le> segment_high W N (segment_low W k) \<longleftrightarrow>
                k = (x - 3) div W" for k
  proof
    assume h: "segment_low W k \<le> x \<and> x \<le> segment_high W N (segment_low W k)"
    then have a: "k * W \<le> x - 3" "x - 3 < k * W + W"
      by (simp_all add: segment_low_def segment_high_def)
    have "(x - 3) div W = k"
    proof (rule int_div_pos_eq)
      show "x - 3 = W * k + (x - 3 - k * W)" by (simp add: algebra_simps)
      show "0 \<le> x - 3 - k * W" using a by simp
      show "x - 3 - k * W < W" using a by simp
    qed
    then show "k = (x - 3) div W" by simp
  next
    assume k: "k = (x - 3) div W"
    have dm: "x - 3 = k * W + (x - 3) mod W" unfolding k by (rule div_mult_mod_eq[symmetric])
    have r: "0 \<le> (x - 3) mod W" "(x - 3) mod W < W"
      using W pos_mod_sign[of W "x - 3"] pos_mod_bound[of W "x - 3"] by linarith+
    show "segment_low W k \<le> x \<and> x \<le> segment_high W N (segment_low W k)"
      using dm r x by (simp add: segment_low_def segment_high_def)
  qed
  let ?k = "(x - 3) div W"
  have k0: "0 \<le> ?k" using x W by (simp add: pos_imp_zdiv_nonneg_iff)
  have "x - 3 = ?k * W + (x - 3) mod W" by (rule div_mult_mod_eq[symmetric])
  moreover have "0 \<le> (x - 3) mod W" using W pos_mod_sign[of W "x - 3"] by linarith
  ultimately have "?k * W \<le> x - 3" by linarith
  then have "?k * W < num_segments W N * W" using nb(4) x by linarith
  then have k1: "?k < num_segments W N" using W by (simp add: mult_less_cancel_right)
  show ?thesis
  proof (rule ex1I[of _ ?k])
    show "0 \<le> ?k \<and> ?k < num_segments W N \<and> segment_low W ?k \<le> x \<and>
          x \<le> segment_high W N (segment_low W ?k)"
      using k0 k1 inside[of ?k] by simp
  next
    fix k assume "0 \<le> k \<and> k < num_segments W N \<and> segment_low W k \<le> x \<and>
          x \<le> segment_high W N (segment_low W k)"
    then show "k = ?k" using inside[of k] by simp
  qed
qed

lemma segments_contiguous:
  assumes W: "1 \<le> W" and N: "3 \<le> N" and k: "0 \<le> k" "k + 1 < num_segments W N"
  shows "segment_low W (k + 1) = segment_high W N (segment_low W k) + 1"
proof -
  have "segment_low W (k + 1) \<le> N" using segment_in_range[OF W N, of "k + 1"] k by simp
  then show ?thesis by (simp add: segment_low_def segment_high_def algebra_simps)
qed

lemma last_segment_high:
  assumes W: "1 \<le> W" and N: "3 \<le> N"
  shows "segment_high W N (segment_low W (num_segments W N - 1)) = N"
  using num_segments_bounds(4)[OF W N]
  by (simp add: segment_low_def segment_high_def algebra_simps)

lemma serial_plan_from:
  assumes W: "1 \<le> W" "even W" and N: "3 \<le> N"
  shows "0 \<le> m \<Longrightarrow> m \<le> num_segments W N \<Longrightarrow>
         serial_plan W N (segment_low W m) plan =
         Some (plan @ map (\<lambda>k. (segment_low W k, segment_high W N (segment_low W k)))
                        [m..num_segments W N - 1])"
proof (induction "nat (num_segments W N - m)" arbitrary: m plan rule: less_induct)
  case less
  note nb = num_segments_bounds[OF W(1) N]
  show ?case
  proof (cases "m = num_segments W N")
    case True
    have "\<not> segment_low W m \<le> N" using nb(4) True by (simp add: segment_low_def)
    then show ?thesis using True by (subst serial_plan.simps) simp
  next
    case False
    then have m: "m < num_segments W N" using less.prems by simp
    have inr: "segment_low W m \<le> N" using segment_in_range[OF W(1) N less.prems(1) m] .
    have odd: "odd (segment_low W m)" using W(2) by (simp add: segment_low_def)
    have nxt: "segment_low W m + W = segment_low W (m + 1)"
      by (simp add: segment_low_def algebra_simps)
    have up: "[m..num_segments W N - 1] = m # [m + 1..num_segments W N - 1]"
      using m by (simp add: upto_rec1)
    have "serial_plan W N (segment_low W m) plan =
          serial_plan W N (segment_low W (m + 1))
            (plan @ [(segment_low W m, segment_high W N (segment_low W m))])"
      using inr odd nxt by (subst serial_plan.simps) (simp add: Let_def smod_2_eq_0_iff)
    also have "\<dots> = Some ((plan @ [(segment_low W m, segment_high W N (segment_low W m))]) @
           map (\<lambda>k. (segment_low W k, segment_high W N (segment_low W k)))
               [m + 1..num_segments W N - 1])"
      using less.hyps[of "m + 1"] m less.prems by simp
    finally show ?thesis unfolding up by simp
  qed
qed

lemma serial_plan_eq:
  assumes W: "1 \<le> W" "even W" and N: "3 \<le> N"
  shows "serial_plan W N 3 [] =
         Some (map (\<lambda>k. (segment_low W k, segment_high W N (segment_low W k)))
                   [0..num_segments W N - 1])"
  using serial_plan_from[OF assms, of 0 "[]"] num_segments_bounds(2)[OF W(1) N]
  by (simp add: segment_low_def)

section \<open>The redundant tests\<close>

lemma count_survivors_opt_eq:
  assumes "guard \<or> (\<forall>k. i \<le> k \<and> k < odd_count \<longrightarrow> low + 2 * k \<le> N)"
  shows "count_survivors_opt guard N low odd_count segment i cnt =
         count_survivors N low odd_count segment i cnt"
  using assms
proof (induction N low odd_count segment i cnt rule: count_survivors.induct)
  case (1 N low odd_count segment i cnt)
  show ?case
  proof (cases "i < odd_count")
    case False
    then show ?thesis
      by (subst count_survivors_opt.simps, subst count_survivors.simps) simp
  next
    case True
    define c where "c = (if segment ! nat i then (if low + 2 * i \<le> N then cnt + 1 else cnt) else cnt)"
    have g: "(\<not> guard \<or> low + 2 * i \<le> N) = (low + 2 * i \<le> N)" using 1(2) True by auto
    have pre: "guard \<or> (\<forall>k. i + 1 \<le> k \<and> k < odd_count \<longrightarrow> low + 2 * k \<le> N)"
      using 1(2) by auto
    have ih: "count_survivors_opt guard N low odd_count segment (i + 1) c =
              count_survivors N low odd_count segment (i + 1) c"
      using 1(1)[OF True pre] by (simp only: c_def)
    have a: "count_survivors_opt guard N low odd_count segment i cnt =
             count_survivors_opt guard N low odd_count segment (i + 1) c"
      by (subst count_survivors_opt.simps) (simp only: True g c_def if_True)
    have b: "count_survivors N low odd_count segment i cnt =
             count_survivors N low odd_count segment (i + 1) c"
      by (subst count_survivors.simps) (simp only: True c_def if_True)
    show ?thesis unfolding a b ih ..
  qed
qed

lemma serial_segment_opt_eq:
  assumes "low \<le> high" "high \<le> N"
  shows "serial_segment_opt guard N ps low high cnt = serial_segment N ps low high cnt"
proof -
  define odd_count where "odd_count = (high - low) sdiv 2 + 1"
  have oc: "odd_count = (high - low) div 2 + 1" using assms by (simp add: odd_count_def sdiv_nonneg)
  have "low + 2 * k \<le> N" if "k < odd_count" for k
  proof -
    have "k \<le> (high - low) div 2" using that oc by simp
    then have "2 * k \<le> 2 * ((high - low) div 2)" by simp
    also have "\<dots> \<le> high - low" by (simp add: algebra_simps)
    finally show ?thesis using assms by simp
  qed
  then have c: "count_survivors_opt guard N low odd_count segment 0 cnt =
        count_survivors N low odd_count segment 0 cnt" for segment
    by (intro count_survivors_opt_eq) simp
  show ?thesis
    unfolding serial_segment_opt_def serial_segment_def odd_count_def[symmetric] Let_def c ..
qed

lemma serial_segments_opt_eq:
  assumes W: "0 < W" "even W"
  shows "odd low \<Longrightarrow>
         serial_segments_opt adjust skip guard W N ps low cnt = serial_segments W N ps low cnt"
proof (induction "nat (N + 1 - low)" arbitrary: low cnt rule: less_induct)
  case less
  show ?case
  proof (cases "low \<le> N")
    case False
    then show ?thesis
      by (subst serial_segments_opt.simps, subst serial_segments.simps) simp
  next
    case True
    define high where "high = segment_high W N low"
    have hl: "low \<le> high" "high \<le> N" using True W by (simp_all add: high_def segment_high_def)
    have odd: "low smod 2 \<noteq> 0" using less.prems by (simp add: smod_2_eq_0_iff)
    have m: "nat (N + 1 - (low + W)) < nat (N + 1 - low)" using True W by simp
    have l': "odd (low + W)" using less.prems W by simp
    have ih: "serial_segments_opt adjust skip guard W N ps (low + W) c =
              serial_segments W N ps (low + W) c" for c
      using less.hyps[OF m l'] .
    have seg: "serial_segment_opt guard N ps low high cnt = serial_segment N ps low high cnt"
      using serial_segment_opt_eq[OF hl] .
    have a0: "serial_segments_opt adjust skip guard W N ps low cnt =
          (case serial_segment N ps low high cnt of
                 None \<Rightarrow> None
               | Some (Inl e) \<Rightarrow> Some (Inl e)
               | Some (Inr c) \<Rightarrow> serial_segments_opt adjust skip guard W N ps (low + W) c)"
      using True odd hl seg
      by (subst serial_segments_opt.simps) (simp add: high_def[symmetric] Let_def)
    have a: "serial_segments_opt adjust skip guard W N ps low cnt =
          (case serial_segment N ps low high cnt of
                 None \<Rightarrow> None
               | Some (Inl e) \<Rightarrow> Some (Inl e)
               | Some (Inr c) \<Rightarrow> serial_segments W N ps (low + W) c)"
      unfolding a0 ih ..
    have b: "serial_segments W N ps low cnt =
          (case serial_segment N ps low high cnt of
                 None \<Rightarrow> None
               | Some (Inl e) \<Rightarrow> Some (Inl e)
               | Some (Inr c) \<Rightarrow> serial_segments W N ps (low + W) c)"
      using True odd hl
      by (subst serial_segments.simps) (simp add: high_def[symmetric] Let_def)
    show ?thesis unfolding a b ..
  qed
qed

lemma sieve_serial_opt_eq:
  assumes "0 < W" "even W"
  shows "sieve_serial_opt adjust skip guard W N = sieve_serial_W W N"
proof -
  have eq: "serial_segments_opt adjust skip guard W N ps 3 c = serial_segments W N ps 3 c" for ps c
    using serial_segments_opt_eq[OF assms, of 3] by simp
  show ?thesis unfolding sieve_serial_opt_def sieve_serial_W_def eq ..
qed

lemma odd_segment_low: "even W \<Longrightarrow> odd (segment_low W k)"
  by (simp add: segment_low_def)

lemma openmp_segment_opt_eq:
  assumes W: "1 \<le> W" "even W" and k: "0 \<le> k" "segment_low W k \<le> N"
  shows "openmp_segment_opt adjust skip guard W N ps k = openmp_segment W N ps k"
proof -
  define low where "low = segment_low W k"
  define high where "high = segment_high W N low"
  note b = segment_bounds[OF W(1) k, folded low_def, folded high_def]
  have odd: "low smod 2 \<noteq> 0" using odd_segment_low[OF W(2), of k] by (simp add: low_def smod_2_eq_0_iff)
  define odd_count where "odd_count = (high - low) sdiv 2 + 1"
  have oc: "odd_count = (high - low) div 2 + 1" using b by (simp add: odd_count_def sdiv_nonneg)
  have "low + 2 * j \<le> N" if "j < odd_count" for j
  proof -
    have "j \<le> (high - low) div 2" using that oc by simp
    then have "2 * j \<le> 2 * ((high - low) div 2)" by simp
    also have "\<dots> \<le> high - low" by (simp add: algebra_simps)
    finally show ?thesis using b by simp
  qed
  then have c: "count_survivors_opt guard N low odd_count segment 0 0 =
        count_survivors N low odd_count segment 0 0" for segment
    by (intro count_survivors_opt_eq) simp
  have lo: "(if adjust \<and> low smod 2 = 0 then low + 1 else low) = low"
    "(if low smod 2 = 0 then low + 1 else low) = low" using odd by simp_all
  have sk: "(skip \<and> low > high) = False" "(low > high) = False" using b by simp_all
  show ?thesis
    unfolding openmp_segment_opt_def openmp_segment_def low_def[symmetric] Let_def
      high_def[symmetric] lo sk odd_count_def[symmetric] c by simp
qed

lemma openmp_thread_opt_eq:
  assumes W: "1 \<le> W" "even W" and ids: "\<forall>k\<in>set seg_ids. 0 \<le> k \<and> segment_low W k \<le> N"
  shows "openmp_thread_opt adjust skip guard W N ps seg_ids tot = openmp_thread W N ps seg_ids tot"
  using ids
proof (induction seg_ids arbitrary: tot)
  case Nil
  then show ?case by simp
next
  case (Cons k seg_ids)
  have "openmp_segment_opt adjust skip guard W N ps k = openmp_segment W N ps k"
    using openmp_segment_opt_eq[OF W] Cons.prems by simp
  then show ?case using Cons by (simp split: option.splits sum.splits)
qed

lemma openmp_reduction_opt_eq:
  assumes W: "1 \<le> W" "even W"
    and ids: "\<forall>k\<in>set (concat schedule). 0 \<le> k \<and> segment_low W k \<le> N"
  shows "openmp_reduction_opt adjust skip guard W N ps schedule tot =
         openmp_reduction W N ps schedule tot"
  using ids
proof (induction schedule arbitrary: tot)
  case Nil
  then show ?case by simp
next
  case (Cons seg_ids schedule)
  have "openmp_thread_opt adjust skip guard W N ps seg_ids 0 = openmp_thread W N ps seg_ids 0"
    using openmp_thread_opt_eq[OF W] Cons.prems by simp
  then show ?case using Cons by (simp split: option.splits sum.splits)
qed

lemma sieve_openmp_opt_eq:
  assumes W: "1 \<le> W" "even W" and v: "valid_schedule T (num_segments W N) schedule"
  shows "sieve_openmp_opt adjust skip guard W N T schedule = sieve_openmp_W W N T schedule"
proof (cases "N < 3")
  case True
  then show ?thesis
    by (simp add: sieve_openmp_opt_def sieve_openmp_W_def split: option.splits sum.splits)
next
  case False
  then have N: "3 \<le> N" by simp
  have "mset (concat schedule) = mset [0..num_segments W N - 1]"
    using v by (simp add: valid_schedule_def)
  then have "set (concat schedule) = set [0..num_segments W N - 1]" by (rule mset_eq_setD)
  then have ids: "\<forall>k\<in>set (concat schedule). 0 \<le> k \<and> segment_low W k \<le> N"
    using segment_in_range[OF W(1) N] by auto
  have eq: "openmp_reduction_opt adjust skip guard W N ps schedule tot =
            openmp_reduction W N ps schedule tot" for ps tot
    using openmp_reduction_opt_eq[OF W ids] .
  show ?thesis unfolding sieve_openmp_opt_def sieve_openmp_W_def eq ..
qed

section \<open>64-bit arithmetic\<close>

lemma sint64_of_int: "in_int64 v \<Longrightarrow> sint (word_of_int v :: int64) = v"
  by (simp add: in_int64_def sint_sbintrunc' signed_take_bit_int_eq_self)

lemma in_int64I: "0 \<le> v \<Longrightarrow> v < 2 ^ 62 \<Longrightarrow> in_int64 v"
  by (simp add: in_int64_def)

lemma sint32_of_int: "- (2 ^ 31) \<le> v \<Longrightarrow> v < 2 ^ 31 \<Longrightarrow> sint (word_of_int v :: int32) = v"
  by (simp add: sint_sbintrunc' signed_take_bit_int_eq_self)

lemma p64_w_of_int:
  assumes "- (2 ^ 31) \<le> v" "v < 2 ^ 31"
  shows "p64_w (word_of_int v) = (word_of_int v :: int64)"
proof -
  have "sint (p64_w (word_of_int v)) = v"
    unfolding p64_w_def using sint32_of_int[OF assms] by (simp add: sint_up_scast is_up)
  then have "word_of_int (sint (p64_w (word_of_int v))) = (word_of_int v :: int64)" by simp
  then show ?thesis by simp
qed

lemma sdiv64_of_int:
  assumes "in_int64 a" "in_int64 b"
  shows "sdiv64 (word_of_int a) (word_of_int b) = word_of_int (a sdiv b)"
  by (simp add: sdiv64_def sint64_of_int[OF assms(1)] sint64_of_int[OF assms(2)])

lemma square_less_imp_less:
  assumes "0 \<le> p" "p * p < b * b" "0 \<le> (b::int)"
  shows "p < b"
proof (rule ccontr)
  assume "\<not> p < b"
  then have "b * b \<le> p * p" using assms by (intro mult_mono) auto
  then show False using assms by simp
qed

lemma int64_arithmetic:
  assumes N: "N < 2 ^ 62" and p: "2 \<le> p" "p * p \<le> N"
    and low: "3 \<le> low" "low \<le> x" "x \<le> high" "high \<le> N"
    and i: "0 \<le> i" "i < (high - low) sdiv 2 + 1"
  shows "in_int64 (p * p) \<and> sint (p2_w (p64_w (word_of_int p))) = p * p \<and>
         in_int64 (low + p) \<and> in_int64 (low + p - 1) \<and> in_int64 ((low + p - 1) sdiv p) \<and>
         in_int64 (first_multiple low p) \<and>
         sint (first_multiple_w (word_of_int low) (p64_w (word_of_int p))) = first_multiple low p \<and>
         in_int64 (first_odd_multiple low p) \<and>
         in_int64 (2 * p) \<and> sint (stride_w (p64_w (word_of_int p))) = 2 * p \<and>
         in_int64 (x + 2 * p) \<and>
         in_int64 (x - low) \<and> sint (idx_w (word_of_int x) (word_of_int low)) = (x - low) sdiv 2 \<and>
         in_int64 (2 * i) \<and> in_int64 (low + 2 * i) \<and>
         sint (num_w (word_of_int low) (word_of_int i)) = low + 2 * i"
proof -
  have pN: "p \<le> N" using self_le_square[of p] p by linarith
  have "p * p < (2 ^ 31) * (2 ^ 31 :: int)" using p N by simp
  then have p31: "p < 2 ^ 31" using square_less_imp_less[of p "2 ^ 31"] p by simp
  have p64: "p64_w (word_of_int p) = (word_of_int p :: int64)"
    using p64_w_of_int[of p] p p31 by simp
  have lowN: "low \<le> N" using low by simp
  \<comment> \<open>p * p\<close>
  have "0 \<le> p * p" by simp
  moreover have "p * p < 2 ^ 62" using p N by linarith
  ultimately have r1: "in_int64 (p * p)" by (rule in_int64I)
  have e1: "sint (p2_w (p64_w (word_of_int p))) = p * p"
    using sint64_of_int[OF r1] by (simp add: p2_w_def p64)
  \<comment> \<open>first multiple\<close>
  have r2: "in_int64 (low + p)" "in_int64 (low + p - 1)" "in_int64 low" "in_int64 p"
    using p low pN lowN N by (simp_all add: in_int64_def)
  have q: "(low + p - 1) sdiv p = (low + p - 1) div p" using p low by (simp add: sdiv_nonneg)
  have fm: "low \<le> first_multiple low p" "first_multiple low p \<le> low + p - 1"
  proof -
    show "low \<le> first_multiple low p" using first_multiple_props(2)[of p low] p low by simp
    have "(low + p - 1) div p * p \<le> low + p - 1"
      using div_mult_mod_eq[of "low + p - 1" p] pos_mod_sign[of p "low + p - 1"] p by linarith
    then show "first_multiple low p \<le> low + p - 1" by (simp add: first_multiple_def q)
  qed
  have q0: "0 \<le> (low + p - 1) div p" using p low by (simp add: pos_imp_zdiv_nonneg_iff)
  have "(low + p - 1) div p * 1 \<le> (low + p - 1) div p * p"
    using q0 p by (intro mult_left_mono) auto
  then have "(low + p - 1) div p \<le> low + p - 1"
    using fm(2) by (simp add: first_multiple_def q)
  then have r3: "in_int64 ((low + p - 1) sdiv p)" using q0 r2(2) by (simp add: q in_int64_def)
  have r4: "in_int64 (first_multiple low p)" using fm low r2(2) by (simp add: in_int64_def)
  have "first_multiple_w (word_of_int low) (word_of_int p) =
        (word_of_int (first_multiple low p) :: int64)"
    using sdiv64_of_int[OF r2(2,4)] by (simp add: first_multiple_w_def first_multiple_def)
  then have e2: "sint (first_multiple_w (word_of_int low) (p64_w (word_of_int p))) =
                 first_multiple low p"
    using sint64_of_int[OF r4] by (simp add: p64)
  have "first_odd_multiple low p \<le> max (p * p) (first_multiple low p) + p"
    using p by (simp add: first_odd_multiple_def Let_def)
  moreover have "max (p * p) (first_multiple low p) \<le> N + p" using p fm lowN by simp
  ultimately have "first_odd_multiple low p \<le> N + p + p" by linarith
  moreover have "low \<le> first_odd_multiple low p"
    using first_odd_multiple_ge_low[of p low] p low by simp
  ultimately have r9: "in_int64 (first_odd_multiple low p)"
    using low p31 N by (simp add: in_int64_def)
  \<comment> \<open>stride\<close>
  have r5: "in_int64 (2 * p)" "in_int64 (x + 2 * p)" using p p31 low N by (simp_all add: in_int64_def)
  have e5: "sint (stride_w (p64_w (word_of_int p))) = 2 * p"
    using sint64_of_int[OF r5(1)] by (simp add: stride_w_def p64)
  \<comment> \<open>index\<close>
  have r6: "in_int64 (x - low)" "in_int64 2" using low N by (simp_all add: in_int64_def)
  have d2: "(x - low) sdiv 2 = (x - low) div 2" using low by (simp add: sdiv_nonneg)
  have "0 \<le> (x - low) div 2" "(x - low) div 2 \<le> x - low" using low by simp_all
  then have r7: "in_int64 ((x - low) sdiv 2)" unfolding d2 using low N by (intro in_int64I) linarith+
  have "idx_w (word_of_int x) (word_of_int low) = (word_of_int ((x - low) sdiv 2) :: int64)"
    using sdiv64_of_int[OF r6] by (simp add: idx_w_def)
  then have e6: "sint (idx_w (word_of_int x) (word_of_int low)) = (x - low) sdiv 2"
    using sint64_of_int[OF r7] by simp
  \<comment> \<open>represented value\<close>
  have hl: "low \<le> high" using low by simp
  have "i \<le> (high - low) div 2" using i hl by (simp add: sdiv_nonneg)
  then have "2 * i \<le> 2 * ((high - low) div 2)" by simp
  also have "\<dots> \<le> high - low" by (simp add: algebra_simps)
  finally have i2: "low + 2 * i \<le> high" by simp
  have r8: "in_int64 (2 * i)" "in_int64 (low + 2 * i)" using i i2 low N by (simp_all add: in_int64_def)
  have e8: "sint (num_w (word_of_int low) (word_of_int i)) = low + 2 * i"
    using sint64_of_int[OF r8(2)] by (simp add: num_w_def)
  show ?thesis using r1 e1 r2 r3 r4 e2 r9 r5 e5 r6 e6 r8 e8 by simp
qed

lemma simple_sieve_members_le:
  assumes "simple_sieve limit = Some (Inr base_primes)" "p \<in> set base_primes"
  shows "p \<le> limit"
  using assms(2) simple_sieve_returns[OF assms(1)] set_primes_upto[of limit] by simp

lemma prime_int_3: "prime_int 3"
  by (simp add: prime_int_code no_divisor_from.simps)

section \<open>Legendre's formula\<close>

lemma primes_below_prime: "primes_below ps \<Longrightarrow> q \<in> set ps \<Longrightarrow> prime_int q"
  unfolding primes_below_def by blast

lemma primes_below_closed:
  "primes_below ps \<Longrightarrow> prime_int q \<Longrightarrow> p \<in> set ps \<Longrightarrow> q \<le> p \<Longrightarrow> q \<in> set ps"
  unfolding primes_below_def by blast

lemma prime_int_coprime:
  assumes "prime_int q" "\<not> q dvd a"
  shows "coprime q a"
proof (rule coprimeI)
  fix c assume c: "c dvd q" "c dvd a"
  have q: "2 \<le> q" using assms(1) by (rule prime_int_ge_2)
  have "\<bar>c\<bar> dvd q" using c(1) by simp
  have "\<bar>c\<bar> \<noteq> 0" using c(1) q by auto
  have "\<not> 2 \<le> \<bar>c\<bar>"
  proof
    assume "2 \<le> \<bar>c\<bar>"
    then have "\<bar>c\<bar> = q" using prime_int_divisor[OF assms(1) \<open>\<bar>c\<bar> dvd q\<close>] by simp
    then have "q dvd a" using c(2) abs_dvd_iff[of c a] by simp
    then show False using assms(2) by simp
  qed
  then have "\<bar>c\<bar> = 1" using \<open>\<bar>c\<bar> \<noteq> 0\<close> by linarith
  then show "is_unit c" by (simp add: zdvd1_eq)
qed

lemma prime_int_dvd_mult:
  assumes "prime_int q" "q dvd a * b"
  shows "q dvd a \<or> q dvd b"
proof (cases "q dvd a")
  case False
  then have "coprime q a" using prime_int_coprime[OF assms(1)] by simp
  then have "q dvd b" using assms(2) by (simp add: coprime_dvd_mult_right_iff)
  then show ?thesis ..
qed simp

lemma finite_unsieved: "finite (unsieved y P)"
  unfolding unsieved_def by (rule finite_subset[of _ "{1..y}"]) auto

lemma unsieved_small:
  assumes pb: "primes_below (p # ps)" and y: "y \<le> p"
  shows "unsieved y (set (p # ps)) = (if 1 \<le> y then {1} else {})"
proof -
  have mem: "q \<in> set (p # ps)" if "prime_int q" "q \<le> p" for q
    using primes_below_closed[OF pb that(1), of p] that(2) by simp
  have ge2: "2 \<le> q" if "q \<in> set (p # ps)" for q
    using primes_below_prime[OF pb that] prime_int_ge_2 by blast
  have one: "\<not> (\<exists>q\<in>set (p # ps). q dvd 1)"
  proof
    assume "\<exists>q\<in>set (p # ps). q dvd 1"
    then obtain q where q: "q \<in> set (p # ps)" "q dvd 1" by blast
    then have "\<bar>q\<bar> = 1" by (simp add: zdvd1_eq)
    then show False using ge2[OF q(1)] by simp
  qed
  have big: "\<exists>q\<in>set (p # ps). q dvd n" if n: "2 \<le> n" "n \<le> y" for n
  proof -
    from prime_divisor_exists[OF n(1)] obtain q where q: "prime_int q" "q dvd n" by blast
    have "q \<le> n" using q(2) n(1) by (intro zdvd_imp_le) auto
    then show ?thesis using mem[OF q(1)] q(2) n(2) y by auto
  qed
  show ?thesis
  proof (cases "1 \<le> y")
    case True
    have "unsieved y (set (p # ps)) = {1}"
    proof (intro equalityI subsetI)
      fix n assume "n \<in> unsieved y (set (p # ps))"
      then have n: "1 \<le> n" "n \<le> y" "\<not> (\<exists>q\<in>set (p # ps). q dvd n)"
        by (simp_all add: unsieved_def)
      then have "\<not> 2 \<le> n" using big by blast
      then show "n \<in> {1}" using n(1) by simp
    next
      fix n :: int assume "n \<in> {1}"
      then show "n \<in> unsieved y (set (p # ps))" using one True by (simp add: unsieved_def)
    qed
    then show ?thesis using True by simp
  next
    case False
    then show ?thesis by (auto simp: unsieved_def)
  qed
qed

lemma unsieved_step:
  assumes pb: "primes_below (p # ps)" and y: "p < y"
  shows "int (card (unsieved y (set (p # ps)))) =
         int (card (unsieved y (set ps))) - int (card (unsieved (y div p) (set ps)))"
proof -
  have pp: "prime_int p" using primes_below_prime[OF pb, of p] by simp
  have p2: "2 \<le> p" using pp by (rule prime_int_ge_2)
  have psp: "prime_int q \<and> q \<noteq> p" if "q \<in> set ps" for q
  proof -
    have "sorted_wrt (>) (p # ps)" using pb by (simp add: primes_below_def)
    then have "q < p" using that by simp
    moreover have "prime_int q" using primes_below_prime[OF pb, of q] that by simp
    ultimately show ?thesis by simp
  qed
  let ?A = "unsieved y (set ps)"
  let ?B = "{n \<in> ?A. p dvd n}"
  let ?C = "unsieved (y div p) (set ps)"
  have split: "unsieved y (set (p # ps)) = ?A - ?B" by (auto simp: unsieved_def)
  have BA: "?B \<subseteq> ?A" by auto
  have img: "?B = (\<lambda>m. p * m) ` ?C"
  proof (intro equalityI subsetI)
    fix n assume "n \<in> ?B"
    then have n: "1 \<le> n" "n \<le> y" "\<not> (\<exists>q\<in>set ps. q dvd n)" "p dvd n"
      by (simp_all add: unsieved_def)
    then obtain m where m: "n = p * m" by auto
    have "0 < p * m" using n(1) m by simp
    then have "0 < m" using zero_less_mult_pos[of p m] p2 by simp
    moreover have "m \<le> y div p"
    proof -
      have "m = n div p" using m p2 by simp
      then show ?thesis using n(2) p2 by (simp add: zdiv_mono1)
    qed
    moreover have "\<not> (\<exists>q\<in>set ps. q dvd m)" using n(3) m by auto
    ultimately have "m \<in> ?C" by (simp add: unsieved_def)
    then show "n \<in> (\<lambda>m. p * m) ` ?C" using m by blast
  next
    fix n assume "n \<in> (\<lambda>m. p * m) ` ?C"
    then obtain m where m: "n = p * m" "1 \<le> m" "m \<le> y div p" "\<not> (\<exists>q\<in>set ps. q dvd m)"
      by (auto simp: unsieved_def)
    have "1 * 1 \<le> p * m" using m(2) p2 by (intro mult_mono) auto
    then have n1: "1 \<le> n" using m(1) by simp
    have a: "p * m \<le> p * (y div p)" using m(3) p2 by (intro mult_left_mono) auto
    have "p * (y div p) + y mod p = y" by (rule mult_div_mod_eq)
    moreover have "0 \<le> y mod p" using pos_mod_sign[of p y] p2 by linarith
    ultimately have "p * (y div p) \<le> y" by linarith
    then have n2: "n \<le> y" using a m(1) by linarith
    have "\<not> q dvd n" if q: "q \<in> set ps" for q
    proof
      assume "q dvd n"
      then have "q dvd p \<or> q dvd m" using prime_int_dvd_mult[of q p m] psp[OF q] m(1) by simp
      moreover have "\<not> q dvd p"
        using prime_int_divisor[OF pp, of q] psp[OF q] prime_int_ge_2[of q] by auto
      ultimately show False using m(4) q by blast
    qed
    then show "n \<in> ?B" using n1 n2 m(1) by (simp add: unsieved_def)
  qed
  have "inj_on (\<lambda>m. p * m) ?C" using p2 by (simp add: inj_on_def)
  then have cB: "card ?B = card ?C" unfolding img by (rule card_image)
  have fA: "finite ?A" by (rule finite_unsieved)
  have fB: "finite ?B" using finite_subset[OF BA fA] .
  have "card (?A - ?B) = card ?A - card ?B" using card_Diff_subset[OF fB BA] .
  moreover have "card ?B \<le> card ?A" using card_mono[OF fA BA] .
  ultimately show ?thesis unfolding split cB[symmetric] by simp
qed

lemma primes_below_tail: "primes_below (p # ps) \<Longrightarrow> primes_below ps"
proof -
  assume pb: "primes_below (p # ps)"
  then have s: "sorted_wrt (>) (p # ps)" by (simp add: primes_below_def)
  have "q \<in> set ps \<longleftrightarrow> prime_int q \<and> (\<exists>r\<in>set ps. q \<le> r)" for q
  proof
    assume q: "q \<in> set ps"
    then have "prime_int q" using primes_below_prime[OF pb, of q] by simp
    then show "prime_int q \<and> (\<exists>r\<in>set ps. q \<le> r)" using q by auto
  next
    assume h: "prime_int q \<and> (\<exists>r\<in>set ps. q \<le> r)"
    then obtain r where r: "r \<in> set ps" "q \<le> r" by blast
    then have "r < p" using s by simp
    then have "q \<noteq> p" using r by simp
    moreover have "q \<in> set (p # ps)"
      using primes_below_closed[OF pb, of q r] h r by simp
    ultimately show "q \<in> set ps" by simp
  qed
  moreover have "sorted_wrt (>) ps" using s by simp
  ultimately show ?thesis unfolding primes_below_def by blast
qed

lemma legendre_phi_card:
  "primes_below ps \<Longrightarrow> 0 \<le> y \<Longrightarrow> legendre_phi y ps = int (card (unsieved y (set ps)))"
proof (induction y ps rule: legendre_phi.induct)
  case (1 y)
  have "unsieved y {} = {1..y}" by (auto simp: unsieved_def)
  then show ?case using 1 by simp
next
  case (2 y p ps)
  have pp: "prime_int p" using primes_below_prime[OF 2(3), of p] by simp
  have p2: "2 \<le> p" using pp by (rule prime_int_ge_2)
  note tl = primes_below_tail[OF 2(3)]
  show ?case
  proof (cases "y \<le> p")
    case True
    then show ?thesis using unsieved_small[OF 2(3) True] by simp
  next
    case False
    have d: "0 \<le> y div p" using 2(4) p2 by (simp add: pos_imp_zdiv_nonneg_iff)
    have "legendre_phi y (p # ps) = legendre_phi y ps - legendre_phi (y div p) ps"
      using False by simp
    also have "\<dots> = int (card (unsieved y (set ps))) - int (card (unsieved (y div p) (set ps)))"
      using 2(1)[OF False tl 2(4)] 2(2)[OF False tl d] by simp
    also have "\<dots> = int (card (unsieved y (set (p # ps))))"
      using unsieved_step[OF 2(3)] False by simp
    finally show ?thesis .
  qed
qed

lemma primes_below_rev_primes_upto: "primes_below (rev (primes_upto s))"
proof -
  have "sorted_wrt (<) (primes_upto s)" by (rule sorted_primes_upto)
  then have "sorted_wrt (>) (rev (primes_upto s))" by (simp add: sorted_wrt_rev)
  moreover have "q \<in> set (rev (primes_upto s)) \<longleftrightarrow>
       prime_int q \<and> (\<exists>p\<in>set (rev (primes_upto s)). q \<le> p)" for q
    by (auto simp: set_primes_upto)
  ultimately show ?thesis unfolding primes_below_def by blast
qed

lemma unsieved_base_primes:
  assumes x: "1 \<le> x"
  shows "unsieved x (set (primes_upto (floor_sqrt x))) =
         insert 1 {n \<in> {floor_sqrt x + 1..x}. prime_int n}"
proof -
  let ?s = "floor_sqrt x"
  have x0: "0 \<le> x" using x by simp
  have s1: "1 \<le> ?s" using le_floor_sqrt_iff[OF x0, of 1] x by simp
  show ?thesis
  proof (intro equalityI subsetI)
    fix n assume "n \<in> unsieved x (set (primes_upto ?s))"
    then have n: "1 \<le> n" "n \<le> x" and nd: "\<And>q. prime_int q \<Longrightarrow> q \<le> ?s \<Longrightarrow> \<not> q dvd n"
      by (auto simp: unsieved_def set_primes_upto)
    show "n \<in> insert 1 {n \<in> {?s + 1..x}. prime_int n}"
    proof (cases "n = 1")
      case False
      then have n2: "2 \<le> n" using n by simp
      have pn: "prime_int n"
      proof (rule ccontr)
        assume "\<not> prime_int n"
        from small_prime_divisor[OF n2 this] obtain p where p: "prime_int p" "p * p \<le> n" "p dvd n"
          by blast
        have "p \<le> ?s" using le_floor_sqrt_iff[OF x0, of p] p(1,2) n(2) prime_int_ge_2[of p] by simp
        then show False using nd[OF p(1)] p(3) by simp
      qed
      have "\<not> n \<le> ?s" using nd[OF pn] by auto
      then show ?thesis using pn n by simp
    qed simp
  next
    fix n assume "n \<in> insert 1 {n \<in> {?s + 1..x}. prime_int n}"
    then consider "n = 1" | "?s + 1 \<le> n" "n \<le> x" "prime_int n" by auto
    then show "n \<in> unsieved x (set (primes_upto ?s))"
    proof cases
      case 1
      have "\<not> q dvd 1" if "prime_int q" for q
        using prime_int_ge_2[OF that] by (auto simp: zdvd1_eq)
      then show ?thesis using 1 x by (auto simp: unsieved_def set_primes_upto)
    next
      case 2
      have "\<not> q dvd n" if q: "prime_int q" "q \<le> ?s" for q
      proof
        assume "q dvd n"
        then have "q = n" using prime_int_divisor[OF 2(3), of q] prime_int_ge_2[OF q(1)] by simp
        then show False using q(2) 2(1) by simp
      qed
      then show ?thesis using 2 s1 by (auto simp: unsieved_def set_primes_upto)
    qed
  qed
qed

lemma prime_count_legendre:
  assumes x: "1 \<le> x"
  shows "prime_count x =
         legendre_phi x (rev (primes_upto (floor_sqrt x))) +
         int (length (primes_upto (floor_sqrt x))) - 1"
proof -
  let ?s = "floor_sqrt x"
  have x0: "0 \<le> x" using x by simp
  have s1: "1 \<le> ?s" using le_floor_sqrt_iff[OF x0, of 1] x by simp
  have sx: "?s \<le> x" using floor_sqrt_bounds(2)[OF x0] self_le_square[OF s1] by linarith
  have "legendre_phi x (rev (primes_upto ?s)) = int (card (unsieved x (set (primes_upto ?s))))"
    using legendre_phi_card[OF primes_below_rev_primes_upto x0, of ?s] by simp
  also have "\<dots> = int (card (insert 1 {n \<in> {?s + 1..x}. prime_int n}))"
    by (simp only: unsieved_base_primes[OF x])
  also have "\<dots> = 1 + primes_between (?s + 1) x"
  proof -
    have "1 \<notin> {n \<in> {?s + 1..x}. prime_int n}" using s1 by simp
    then show ?thesis using finite_primes_in[of "?s + 1" x] by (simp add: primes_between_def)
  qed
  finally have phi: "legendre_phi x (rev (primes_upto ?s)) = 1 + primes_between (?s + 1) x" .
  have "prime_count x = primes_between 2 x" by (simp add: prime_count_def primes_between_def)
  also have "\<dots> = primes_between 2 ?s + primes_between (?s + 1) x"
    using s1 sx by (intro primes_between_split) auto
  also have "primes_between 2 ?s = int (length (primes_upto ?s))"
    by (simp add: primes_between_list primes_upto_def)
  finally show ?thesis using phi by simp
qed

lemma floor_sqrt_million: "floor_sqrt 1000000 = 1000"
  by (simp add: floor_sqrt_def sqrt_nat.simps)

lemma primes_upto_thousand:
  "primes_upto 1000 =
     [2, 3, 5, 7, 11, 13, 17, 19, 23, 29, 31, 37, 41, 43, 47, 53, 59, 61, 67, 71, 73, 79,
     83, 89, 97, 101, 103, 107, 109, 113, 127, 131, 137, 139, 149, 151, 157, 163, 167, 173,
     179, 181, 191, 193, 197, 199, 211, 223, 227, 229, 233, 239, 241, 251, 257, 263, 269,
     271, 277, 281, 283, 293, 307, 311, 313, 317, 331, 337, 347, 349, 353, 359, 367, 373,
     379, 383, 389, 397, 401, 409, 419, 421, 431, 433, 439, 443, 449, 457, 461, 463, 467,
     479, 487, 491, 499, 503, 509, 521, 523, 541, 547, 557, 563, 569, 571, 577, 587, 593,
     599, 601, 607, 613, 617, 619, 631, 641, 643, 647, 653, 659, 661, 673, 677, 683, 691,
     701, 709, 719, 727, 733, 739, 743, 751, 757, 761, 769, 773, 787, 797, 809, 811, 821,
     823, 827, 829, 839, 853, 857, 859, 863, 877, 881, 883, 887, 907, 911, 919, 929, 937,
     941, 947, 953, 967, 971, 977, 983, 991, 997]"
  by code_simp

lemma legendre_phi_million:
  "legendre_phi 1000000 (rev
     [2, 3, 5, 7, 11, 13, 17, 19, 23, 29, 31, 37, 41, 43, 47, 53, 59, 61, 67, 71, 73, 79,
     83, 89, 97, 101, 103, 107, 109, 113, 127, 131, 137, 139, 149, 151, 157, 163, 167, 173,
     179, 181, 191, 193, 197, 199, 211, 223, 227, 229, 233, 239, 241, 251, 257, 263, 269,
     271, 277, 281, 283, 293, 307, 311, 313, 317, 331, 337, 347, 349, 353, 359, 367, 373,
     379, 383, 389, 397, 401, 409, 419, 421, 431, 433, 439, 443, 449, 457, 461, 463, 467,
     479, 487, 491, 499, 503, 509, 521, 523, 541, 547, 557, 563, 569, 571, 577, 587, 593,
     599, 601, 607, 613, 617, 619, 631, 641, 643, 647, 653, 659, 661, 673, 677, 683, 691,
     701, 709, 719, 727, 733, 739, 743, 751, 757, 761, 769, 773, 787, 797, 809, 811, 821,
     823, 827, 829, 839, 853, 857, 859, 863, 877, 881, 883, 887, 907, 911, 919, 929, 937,
     941, 947, 953, 967, 971, 977, 983, 991, 997]) = 78331"
  by code_simp

lemma prime_count_thousand: "prime_count 1000 = 168"
  unfolding prime_count_list primes_upto_thousand by simp

lemma prime_count_million: "prime_count 1000000 = 78498"
proof -
  have "prime_count 1000000 =
        legendre_phi 1000000 (rev (primes_upto (floor_sqrt 1000000))) +
        int (length (primes_upto (floor_sqrt 1000000))) - 1"
    by (rule prime_count_legendre) simp
  then show ?thesis
    unfolding floor_sqrt_million legendre_phi_million [folded primes_upto_thousand]
    unfolding primes_upto_thousand by simp
qed

section \<open>The segment width in the parallel loop\<close>

text \<open>
  \<^verbatim>\<open>sieve_openmp\<close> computes the bounds of a segment from \<^verbatim>\<open>seg_id\<close> alone: its result is the
  same for every width \<open>W \<ge> 1\<close> (and every schedule).
\<close>

lemma sieve_openmp_W_width:
  assumes "1 \<le> W" "1 \<le> W'"
    and "valid_schedule T (num_segments W N) schedule"
    and "valid_schedule T' (num_segments W' N) schedule'"
  shows "sieve_openmp_W W N T schedule = sieve_openmp_W W' N T' schedule'"
proof (cases "N < 4611686014132420609")
  case True
  show ?thesis
    using sieve_openmp_W_eq [OF assms(1,3) True] sieve_openmp_W_eq [OF assms(2,4) True] by simp
next
  case False
  then have b: "4611686014132420609 \<le> N" by simp
  show ?thesis
    using sieve_openmp_W_overflow [OF b, of W T schedule]
      sieve_openmp_W_overflow [OF b, of W' T' schedule'] by simp
qed

section \<open>The claims\<close>

text \<open>
  C1 as stated, for every integer \<open>N \<ge> 0\<close>, fails at
  \<open>N = 4611686014132420609 = (2\<^sup>3\<^sup>1 - 1)\<^sup>2\<close>, a value of type \<^verbatim>\<open>long long\<close>: there
  \<^verbatim>\<open>limit\<close> is \<open>INT_MAX\<close>, the sum \<^verbatim>\<open>limit + 1\<close> in \<^verbatim>\<open>simple_sieve\<close> overflows, and
  \<^verbatim>\<open>sieve_serial\<close> ends in a fault instead of returning the number of primes.
\<close>

theorem sieve_serial_bound_counterexample:
  "floor_sqrt 4611686014132420609 = 2147483647 \<and>
   simple_sieve 2147483647 = Some (Inl Overflow) \<and>
   sieve_serial 4611686014132420609 = Some (Inl Overflow) \<and>
   sieve_serial 4611686014132420609 \<noteq> Some (Inr (prime_count 4611686014132420609))"
proof -
  have "floor_sqrt 4611686014132420609 = 2147483647"
    by (simp add: floor_sqrt_def sqrt_nat.simps)
  moreover have "simple_sieve 2147483647 = Some (Inl Overflow)"
    by (simp add: simple_sieve_def INT_MAX_def)
  ultimately show ?thesis
    by (simp add: sieve_serial_def sieve_serial_W_def int_cast_def INT_MIN_def INT_MAX_def)
qed

text \<open>
  C1, amended. For every integer \<open>N\<close> with \<open>0 \<le> N < 4611686014132420609 = (2\<^sup>3\<^sup>1 - 1)\<^sup>2\<close>,
  \<^verbatim>\<open>sieve_serial(N)\<close> returns exactly the number of primes in the range \<open>[2, N]\<close>; in
  particular it returns 0, 0, 1, 2, 4, 25, 168 and 78498 for
  \<open>N\<close> = 0, 1, 2, 3, 10, 100, 1000 and \<open>10\<^sup>6\<close>.
\<close>

theorem sieve_serial_counts_primes:
  "(0 \<le> N \<and> N < 4611686014132420609 \<longrightarrow> sieve_serial N = Some (Inr (prime_count N))) \<and>
   sieve_serial 0 = Some (Inr 0) \<and> sieve_serial 1 = Some (Inr 0) \<and>
   sieve_serial 2 = Some (Inr 1) \<and> sieve_serial 3 = Some (Inr 2) \<and>
   sieve_serial 10 = Some (Inr 4) \<and> sieve_serial 100 = Some (Inr 25) \<and>
   sieve_serial 1000 = Some (Inr 168) \<and> sieve_serial 1000000 = Some (Inr 78498)"
proof -
  have all: "sieve_serial M = Some (Inr (prime_count M))" if "M < 4611686014132420609" for M
    unfolding sieve_serial_def using that
    by (intro sieve_serial_W_eq) (simp_all add: SEG_SIZE_def)
  have "prime_count 0 = 0" "prime_count 1 = 0" by (simp_all add: prime_count_small)
  moreover have "prime_count 2 = 1" "prime_count 3 = 2" "prime_count 10 = 4" "prime_count 100 = 25"
    unfolding prime_count_list by code_simp+
  ultimately show ?thesis using all prime_count_thousand prime_count_million by simp
qed

theorem sieve_serial_counts_primes_witness:
  "(0::int) \<le> 100 \<and> (100::int) < 4611686014132420609 \<and>
   sieve_serial 100 = Some (Inr (prime_count 100)) \<and>
   sieve_serial 100 = Some (Inr 25)"
  using sieve_serial_counts_primes [of 100] by auto

text \<open>
  C2. For every \<open>N\<close>, every thread count and every schedule the parallel construct
  allows (a team of 1 to \<open>T\<close> threads, every segment run exactly once, in any
  distribution and order), \<^verbatim>\<open>sieve_openmp\<close> returns what \<^verbatim>\<open>sieve_serial\<close> returns; so
  two such runs, with any thread counts, return the same count.
\<close>

theorem openmp_equals_serial:
  assumes "valid_schedule T (num_segments SEG_SIZE N) schedule"
    and "valid_schedule T' (num_segments SEG_SIZE N) schedule'"
  shows "sieve_openmp N T schedule = sieve_serial N \<and>
         sieve_openmp N T' schedule' = sieve_openmp N T schedule"
proof -
  have W: "1 \<le> SEG_SIZE" "0 < SEG_SIZE" "even SEG_SIZE" by (simp_all add: SEG_SIZE_def)
  show ?thesis
  proof (cases "N < 4611686014132420609")
    case True
    have "sieve_serial N = Some (Inr (prime_count N))"
      unfolding sieve_serial_def by (rule sieve_serial_W_eq [OF W(2,3) True])
    moreover have "sieve_openmp N T schedule = Some (Inr (prime_count N))"
      unfolding sieve_openmp_def by (rule sieve_openmp_W_eq [OF W(1) assms(1) True])
    moreover have "sieve_openmp N T' schedule' = Some (Inr (prime_count N))"
      unfolding sieve_openmp_def by (rule sieve_openmp_W_eq [OF W(1) assms(2) True])
    ultimately show ?thesis by simp
  next
    case False
    then have b: "4611686014132420609 \<le> N" by simp
    have "sieve_serial N = Some (Inl Overflow)"
      unfolding sieve_serial_def by (rule sieve_serial_W_overflow [OF b])
    moreover have "sieve_openmp N T schedule = Some (Inl Overflow)"
      unfolding sieve_openmp_def by (rule sieve_openmp_W_overflow [OF b])
    moreover have "sieve_openmp N T' schedule' = Some (Inl Overflow)"
      unfolding sieve_openmp_def by (rule sieve_openmp_W_overflow [OF b])
    ultimately show ?thesis by simp
  qed
qed

theorem openmp_equals_serial_witness:
  "valid_schedule 2 (num_segments SEG_SIZE 3000000) [[2, 0], [1]] \<and>
   valid_schedule 4 (num_segments SEG_SIZE 3000000) [[], [0, 1, 2]] \<and>
   sieve_openmp 3000000 2 [[2, 0], [1]] = sieve_serial 3000000 \<and>
   sieve_openmp 3000000 4 [[], [0, 1, 2]] = sieve_openmp 3000000 2 [[2, 0], [1]]"
proof -
  have n: "num_segments SEG_SIZE 3000000 = 3"
    by (simp add: num_segments_def SEG_SIZE_def signed_divide_int_def)
  have u: "[0..2::int] = [0, 1, 2]" by (simp add: upto_rec1)
  have a: "valid_schedule 2 (num_segments SEG_SIZE 3000000) [[2, 0], [1]]"
    unfolding n by (simp add: valid_schedule_def u)
  have b: "valid_schedule 4 (num_segments SEG_SIZE 3000000) [[], [0, 1, 2]]"
    unfolding n by (simp add: valid_schedule_def u)
  show ?thesis using openmp_equals_serial [OF a b] a b by simp
qed

text \<open>
  C3. For a segment \<open>[low, high]\<close> with \<open>low\<close> odd, \<open>3 \<le> low \<le> high \<le> N\<close>, and an
  ascending base-prime sequence holding exactly the primes up to \<open>\<lfloor>\<surd>N\<rfloor>\<close>, the marking
  loop that stops at the first base prime \<open>p\<close> with \<open>p\<^sup>2 > high\<close> leaves the same buffer as
  the loop that processes every base prime, in both files, and the numbers \<open>low + 2 i\<close> of
  the surviving positions are exactly the primes in \<open>[low, high]\<close>.
\<close>

theorem early_termination:
  assumes "base_primes_of N ps" "3 \<le> low" "odd low" "low \<le> high" "high \<le> N"
  shows "\<exists>r. mark_base_primes_serial low high ((high - low) sdiv 2 + 1) ps
               (replicate (nat ((high - low) sdiv 2 + 1)) True) = Some (Inr r) \<and>
             mark_all_base_primes_serial low high ((high - low) sdiv 2 + 1) ps
               (replicate (nat ((high - low) sdiv 2 + 1)) True) = Some (Inr r) \<and>
             mark_base_primes_openmp low high ps
               (replicate (nat ((high - low) sdiv 2 + 1)) True) = Some (Inr r) \<and>
             mark_all_base_primes_openmp low high ps
               (replicate (nat ((high - low) sdiv 2 + 1)) True) = Some (Inr r) \<and>
             length r = nat ((high - low) sdiv 2 + 1) \<and>
             {low + 2 * int i | i. i < length r \<and> r ! i} = {x \<in> {low..high}. prime_int x}"
proof -
  have s: "(high - low) sdiv 2 = (high - low) div 2" using assms(4) by (simp add: sdiv_nonneg)
  from segment_buffers_agree[OF assms refl]
  obtain r where r: "mark_base_primes_serial low high ((high - low) div 2 + 1) ps
        (replicate (nat ((high - low) div 2 + 1)) True) = Some (Inr r)"
     "mark_all_base_primes_serial low high ((high - low) div 2 + 1) ps
        (replicate (nat ((high - low) div 2 + 1)) True) = Some (Inr r)"
     "mark_base_primes_openmp low high ps (replicate (nat ((high - low) div 2 + 1)) True)
        = Some (Inr r)"
     "mark_all_base_primes_openmp low high ps (replicate (nat ((high - low) div 2 + 1)) True)
        = Some (Inr r)"
     "length r = nat ((high - low) div 2 + 1)"
     and rk: "\<And>k. 0 \<le> k \<and> k < (high - low) div 2 + 1 \<Longrightarrow> r ! nat k = prime_int (low + 2 * k)"
    by blast
  have "{low + 2 * int i | i. i < length r \<and> r ! i} = {x \<in> {low..high}. prime_int x}"
    using survivors_set[OF assms(2,3,4) r(5)] rk by blast
  then show ?thesis unfolding s using r by blast
qed

theorem early_termination_witness:
  "base_primes_of 100 [2, 3, 5, 7] \<and> (3::int) \<le> 3 \<and> odd (3::int) \<and>
   (3::int) \<le> 20 \<and> (20::int) \<le> 100 \<and> (3::int) * 3 \<le> 20 \<and> (20::int) < 5 * 5 \<and>
   mark_base_primes_serial 3 20 9 [2, 3, 5, 7] (replicate 9 True)
     = Some (Inr [True, True, True, False, True, True, False, True, True]) \<and>
   mark_all_base_primes_serial 3 20 9 [2, 3, 5, 7] (replicate 9 True)
     = Some (Inr [True, True, True, False, True, True, False, True, True]) \<and>
   mark_base_primes_openmp 3 20 [2, 3, 5, 7] (replicate 9 True)
     = Some (Inr [True, True, True, False, True, True, False, True, True]) \<and>
   mark_all_base_primes_openmp 3 20 [2, 3, 5, 7] (replicate 9 True)
     = Some (Inr [True, True, True, False, True, True, False, True, True]) \<and>
   {3 + 2 * int i | i. i < 9 \<and> [True, True, True, False, True, True, False, True, True] ! i}
     = {x \<in> {3..20}. prime_int x}"
proof -
  have f: "floor_sqrt 100 = 10" by (simp add: floor_sqrt_def sqrt_nat.simps)
  have "primes_upto 10 = [2, 3, 5, 7]" by code_simp
  then have h: "base_primes_of 100 [2, 3, 5, 7]"
    using base_primes_of_primes_upto [of 100] by (simp add: f)
  have v: "(20 - 3) sdiv 2 + 1 = (9::int)" by (simp add: signed_divide_int_def)
  have n: "nat 9 = 9" by simp
  have e: "mark_base_primes_serial 3 20 9 [2, 3, 5, 7] (replicate 9 True)
           = Some (Inr [True, True, True, False, True, True, False, True, True])"
    by code_simp
  from early_termination [OF h, of 3 20]
  obtain r where r: "mark_base_primes_serial 3 20 9 [2, 3, 5, 7] (replicate 9 True) = Some (Inr r)"
    "mark_all_base_primes_serial 3 20 9 [2, 3, 5, 7] (replicate 9 True) = Some (Inr r)"
    "mark_base_primes_openmp 3 20 [2, 3, 5, 7] (replicate 9 True) = Some (Inr r)"
    "mark_all_base_primes_openmp 3 20 [2, 3, 5, 7] (replicate 9 True) = Some (Inr r)"
    "{3 + 2 * int i | i. i < length r \<and> r ! i} = {x \<in> {3..20}. prime_int x}"
    unfolding v n by auto
  have "r = [True, True, True, False, True, True, False, True, True]" using r(1) e by simp
  note r' = r [unfolded this]
  have l: "length [True, True, True, False, True, True, False, True, True] = 9" by simp
  have a: "(3::int) \<le> 3" "odd (3::int)" "(3::int) \<le> 20" "(20::int) \<le> 100"
    "(3::int) * 3 \<le> 20" "(20::int) < 5 * 5"
    by simp_all
  from h a r'(1-4) r'(5) [unfolded l] show ?thesis by - (intro conjI, assumption+)
qed

text \<open>
  C4 as stated, for every integer \<open>limit \<ge> 0\<close>, fails at \<open>limit = 2147483647\<close>, the largest
  value of type \<^verbatim>\<open>int\<close>: the length \<^verbatim>\<open>limit + 1\<close> of \<^verbatim>\<open>is_prime\<close> overflows and
  \<^verbatim>\<open>simple_sieve\<close> ends in a fault instead of returning the primes.
\<close>

theorem simple_sieve_limit_counterexample:
  "simple_sieve 2147483647 = Some (Inl Overflow) \<and>
   simple_sieve 2147483647 \<noteq> Some (Inr (primes_upto 2147483647))"
  by (simp add: simple_sieve_def INT_MAX_def)

text \<open>
  C4, amended. For every \<^verbatim>\<open>int\<close> \<open>limit\<close> with \<open>0 \<le> limit < 2147483647\<close>,
  \<^verbatim>\<open>simple_sieve(limit)\<close> returns the strictly ascending sequence (so without
  duplicates) whose elements are exactly the primes \<open>\<le> limit\<close>; for \<open>limit < 2\<close> it returns
  the empty sequence.
\<close>

theorem simple_sieve_primes:
  "0 \<le> limit \<Longrightarrow> limit < 2147483647 \<Longrightarrow>
   \<exists>ps. simple_sieve limit = Some (Inr ps) \<and> sorted_wrt (<) ps \<and>
        set ps = {p. prime_int p \<and> p \<le> limit} \<and> (limit < 2 \<longrightarrow> ps = [])"
  using simple_sieve_eq [of limit] sorted_primes_upto [of limit] set_primes_upto [of limit]
    primes_upto_empty [of limit]
  by (simp add: INT_MAX_def)

theorem simple_sieve_primes_witness:
  "(0::int) \<le> 30 \<and> (30::int) < 2147483647 \<and>
   simple_sieve 30 = Some (Inr [2, 3, 5, 7, 11, 13, 17, 19, 23, 29]) \<and>
   sorted_wrt (<) [2, 3, 5, 7, 11, 13, 17, 19, 23, 29 :: int] \<and>
   set [2, 3, 5, 7, 11, 13, 17, 19, 23, 29] = {p. prime_int p \<and> p \<le> 30} \<and>
   (0::int) \<le> 1 \<and> (1::int) < 2 \<and> simple_sieve 1 = Some (Inr [])"
proof -
  have e: "simple_sieve 30 = Some (Inr [2, 3, 5, 7, 11, 13, 17, 19, 23, 29])" by code_simp
  from simple_sieve_primes [of 30]
  obtain ps where ps: "simple_sieve 30 = Some (Inr ps)" "sorted_wrt (<) ps"
    "set ps = {p. prime_int p \<and> p \<le> 30}"
    by auto
  have "ps = [2, 3, 5, 7, 11, 13, 17, 19, 23, 29]" using ps(1) e by simp
  moreover have "simple_sieve 1 = Some (Inr [])" using simple_sieve_primes [of 1] by auto
  ultimately show ?thesis using ps e by simp
qed

text \<open>
  C5. For every \<open>N < 2\<^sup>6\<^sup>2\<close> (so for every \<open>N\<close> up to \<open>10\<^sup>9\<close>), every base prime \<open>p\<close>, every
  segment \<open>3 \<le> low \<le> high \<le> N\<close>, every value \<open>low \<le> x \<le> high\<close> and every buffer index
  \<open>0 \<le> i < odd_count\<close>: the product \<open>p\<sqdot>p\<close>, the first multiple \<open>((low + p - 1) / p)\<sqdot>p\<close> with
  its intermediate sums and quotient, the odd start, the stride \<open>2p\<close> and the next value
  \<open>x + 2p\<close>, the
  difference \<open>x - low\<close> and the index \<open>(x - low) / 2\<close>, and the represented value
  \<open>low + 2i\<close> all lie in the signed 64-bit range, and the 64-bit computation (wrapping
  \<open>+\<close>, \<open>-\<close>, \<open>*\<close>, truncating division, \<open>p\<close> widened from 32 bits) returns the exact value.
\<close>

theorem no_overflow_64:
  assumes "N < 2 ^ 62"
    and "simple_sieve (floor_sqrt N) = Some (Inr base_primes)" "p \<in> set base_primes"
    and "3 \<le> low" "low \<le> x" "x \<le> high" "high \<le> N"
    and "0 \<le> i" "i < (high - low) sdiv 2 + 1"
  shows "in_int64 (p * p) \<and> sint (p2_w (p64_w (word_of_int p))) = p * p \<and>
         in_int64 (low + p) \<and> in_int64 (low + p - 1) \<and> in_int64 ((low + p - 1) sdiv p) \<and>
         in_int64 (first_multiple low p) \<and>
         sint (first_multiple_w (word_of_int low) (p64_w (word_of_int p))) = first_multiple low p \<and>
         in_int64 (first_odd_multiple low p) \<and>
         in_int64 (2 * p) \<and> sint (stride_w (p64_w (word_of_int p))) = 2 * p \<and>
         in_int64 (x + 2 * p) \<and>
         in_int64 (x - low) \<and> sint (idx_w (word_of_int x) (word_of_int low)) = (x - low) sdiv 2 \<and>
         in_int64 (2 * i) \<and> in_int64 (low + 2 * i) \<and>
         sint (num_w (word_of_int low) (word_of_int i)) = low + 2 * i"
proof -
  have N: "0 \<le> N" using assms(4-7) by simp
  have p2: "2 \<le> p" using simple_sieve_members [OF assms(2,3)] prime_int_ge_2 by simp
  have "p \<le> floor_sqrt N" using simple_sieve_members_le [OF assms(2,3)] .
  then have "p * p \<le> N" using le_floor_sqrt_iff [OF N, of p] p2 by simp
  then show ?thesis using int64_arithmetic [OF assms(1) p2 _ assms(4-9)] by blast
qed

theorem no_overflow_64_witness:
  "(1000000000::int) < 2 ^ 62 \<and>
   simple_sieve (floor_sqrt 1000000000) = Some (Inr (primes_upto (floor_sqrt 1000000000))) \<and>
   3 \<in> set (primes_upto (floor_sqrt 1000000000)) \<and>
   (3::int) \<le> 1048579 \<and> (1048579::int) \<le> 1048581 \<and> (1048581::int) \<le> 2097154 \<and>
   (2097154::int) \<le> 1000000000 \<and> (0::int) \<le> 7 \<and> (7::int) < (2097154 - 1048579) sdiv 2 + 1 \<and>
   sint (p2_w (p64_w (word_of_int 3))) = 3 * 3 \<and>
   sint (first_multiple_w (word_of_int 1048579) (p64_w (word_of_int 3))) = first_multiple 1048579 3 \<and>
   sint (idx_w (word_of_int 1048581) (word_of_int 1048579)) = (1048581 - 1048579) sdiv 2 \<and>
   sint (num_w (word_of_int 1048579) (word_of_int 7)) = 1048579 + 2 * 7"
proof -
  have N: "(0::int) \<le> 1000000000" by simp
  have h1: "(1000000000::int) < 2 ^ 62" by simp
  have h2: "simple_sieve (floor_sqrt 1000000000) =
            Some (Inr (primes_upto (floor_sqrt 1000000000)))"
    by (rule base_primes_computed(2) [OF N]) simp
  have "(3::int) \<le> floor_sqrt 1000000000" using le_floor_sqrt_iff [OF N, of 3] by simp
  then have h3: "3 \<in> set (primes_upto (floor_sqrt 1000000000))"
    using prime_int_3 by (simp add: set_primes_upto)
  have h4: "(3::int) \<le> 1048579" "(1048579::int) \<le> 1048581" "(1048581::int) \<le> 2097154"
    "(2097154::int) \<le> 1000000000" "(0::int) \<le> 7" by simp_all
  have h5: "(7::int) < (2097154 - 1048579) sdiv 2 + 1" by (simp add: signed_divide_int_def)
  show ?thesis
    using no_overflow_64 [OF h1 h2 h3 h4 h5] h1 h2 h3 h5 by simp
qed

text \<open>
  C6. For every \<open>N \<ge> 3\<close> and width \<open>W \<ge> 1\<close>, the raw segments
  \<open>[3 + k W, min (3 + k W + W - 1, N)]\<close>, \<open>0 \<le> k < num_segments\<close>, start at 3, each begins right
  after the one before, the last ends at \<open>N\<close>, every integer of \<open>[3, N]\<close> lies in exactly
  one of them, and their number is \<open>\<lceil>(N - 3 + 1) / W\<rceil>\<close>. The loop of the serial file
  visits these same segments, in this order, when \<open>W\<close> is even.
\<close>

theorem raw_segments_partition:
  assumes "3 \<le> N" "1 \<le> W"
  shows "segment_low W 0 = 3 \<and>
         (\<forall>k. 0 \<le> k \<and> k + 1 < num_segments W N \<longrightarrow>
              segment_low W (k + 1) = segment_high W N (segment_low W k) + 1) \<and>
         segment_high W N (segment_low W (num_segments W N - 1)) = N \<and>
         (\<forall>x. 3 \<le> x \<and> x \<le> N \<longrightarrow>
              (\<exists>!k. 0 \<le> k \<and> k < num_segments W N \<and> segment_low W k \<le> x \<and>
                    x \<le> segment_high W N (segment_low W k))) \<and>
         num_segments W N = \<lceil>real_of_int (N - 3 + 1) / real_of_int W\<rceil> \<and>
         (even W \<longrightarrow>
            serial_plan W N 3 [] =
            Some (map (\<lambda>k. (segment_low W k, segment_high W N (segment_low W k)))
                      [0..num_segments W N - 1]))"
proof -
  have "segment_low W 0 = 3" by (simp add: segment_low_def)
  moreover have "segment_low W (k + 1) = segment_high W N (segment_low W k) + 1"
    if "0 \<le> k \<and> k + 1 < num_segments W N" for k
    using segments_contiguous [OF assms(2,1), of k] that by simp
  moreover have "\<exists>!k. 0 \<le> k \<and> k < num_segments W N \<and> segment_low W k \<le> x \<and>
                    x \<le> segment_high W N (segment_low W k)"
    if "3 \<le> x \<and> x \<le> N" for x
    using segment_of_number [OF assms(2,1), of x] that by simp
  moreover have "serial_plan W N 3 [] =
            Some (map (\<lambda>k. (segment_low W k, segment_high W N (segment_low W k)))
                      [0..num_segments W N - 1])" if "even W"
    using serial_plan_eq [OF assms(2) that assms(1)] .
  ultimately show ?thesis
    using last_segment_high [OF assms(2,1)] num_segments_ceiling [OF assms(2,1)] by blast
qed

theorem raw_segments_partition_witness:
  "(3::int) \<le> 20 \<and> (1::int) \<le> 4 \<and> even (4::int) \<and> num_segments 4 20 = 5 \<and>
   segment_high 4 20 (segment_low 4 (num_segments 4 20 - 1)) = 20 \<and>
   serial_plan 4 20 3 [] = Some [(3, 6), (7, 10), (11, 14), (15, 18), (19, 20)]"
proof -
  have n: "num_segments 4 20 = 5" by (simp add: num_segments_def signed_divide_int_def)
  have u: "[0..4::int] = [0, 1, 2, 3, 4]" by (simp add: upto_rec1)
  show ?thesis
    using raw_segments_partition [of 20 4] n
    by (simp add: u segment_low_def segment_high_def)
qed

text \<open>
  C7. Called with \<open>N < 2\<close>, \<^verbatim>\<open>sieve_serial\<close> and \<^verbatim>\<open>sieve_openmp\<close> (for every thread count
  and every schedule) return the count 0, and with \<open>N = 2\<close> the count 1: results, not
  faults.
\<close>

theorem degenerate_inputs:
  "(N < 2 \<longrightarrow> sieve_serial N = Some (Inr 0) \<and> sieve_openmp N T schedule = Some (Inr 0)) \<and>
   sieve_serial 2 = Some (Inr 1) \<and> sieve_openmp 2 T schedule = Some (Inr 1)"
proof -
  have "floor_sqrt 2 = 1" by (simp add: floor_sqrt_def sqrt_nat.simps)
  moreover have "int_cast 1 = Inr 1" by (simp add: int_cast_def INT_MIN_def INT_MAX_def)
  moreover have "simple_sieve 1 = Some (Inr [])"
    using simple_sieve_eq [of 1] by (simp add: primes_upto_empty INT_MAX_def)
  ultimately have "sieve_serial 2 = Some (Inr 1)" "sieve_openmp 2 T schedule = Some (Inr 1)"
    by (simp_all add: sieve_serial_def sieve_serial_W_def sieve_openmp_def sieve_openmp_W_def
        serial_segments.simps)
  then show ?thesis
    by (simp add: sieve_serial_def sieve_serial_W_def sieve_openmp_def sieve_openmp_W_def)
qed

theorem degenerate_inputs_witness:
  "(1::int) < 2 \<and> sieve_serial 1 = Some (Inr 0) \<and> sieve_openmp 1 4 [[]] = Some (Inr 0) \<and>
   sieve_serial (- 5) = Some (Inr 0) \<and> sieve_openmp 2 1 [[]] = Some (Inr 1)"
  using degenerate_inputs [of 1 4 "[[]]"] degenerate_inputs [of "- 5" 4 "[[]]"]
    degenerate_inputs [of 1 1 "[[]]"]
  by simp

text \<open>
  C8. For every fixed \<open>N\<close> the count is to be the same for every segment width
  \<open>W \<ge> 1\<close>. The serial file does not meet this: with an odd width the odd adjustment
  \<^verbatim>\<open>low++\<close> changes the loop variable itself, so the increment \<^verbatim>\<open>low += SEG_SIZE\<close> starts
  one number later and an odd number is never examined. With \<open>N = 5\<close> the width 1 gives
  the count 2 (the segments \<open>[3, 3]\<close>, then \<open>low = 4\<close> adjusted to 5 with \<open>high = 4\<close>, skipped,
  then \<open>low = 6 > N\<close>: the number 5 is never sieved), while the width 2 gives 3, the number
  of primes up to 5, and the OpenMP file, which computes \<^verbatim>\<open>low\<close> afresh from \<^verbatim>\<open>seg_id\<close>,
  gives 3 with the width 1.
\<close>

theorem segment_width_failing_input:
  "sieve_serial_W 1 5 = Some (Inr 2) \<and> sieve_serial_W 2 5 = Some (Inr 3) \<and>
   sieve_serial_W 1 5 \<noteq> sieve_serial_W 2 5 \<and>
   valid_schedule 1 (num_segments 1 5) [[0, 1, 2]] \<and>
   sieve_openmp_W 1 5 1 [[0, 1, 2]] = Some (Inr 3) \<and>
   prime_count 5 = 3 \<and>
   sieve_serial_W 3 20 = Some (Inr 6) \<and> prime_count 20 = 8"
proof -
  have "sieve_serial_W 1 5 = Some (Inr 2)" by code_simp
  moreover have "sieve_serial_W 2 5 = Some (Inr 3)" by code_simp
  moreover have "sieve_openmp_W 1 5 1 [[0, 1, 2]] = Some (Inr 3)" by code_simp
  moreover have "num_segments 1 5 = 3" by (simp add: num_segments_def signed_divide_int_def)
  moreover have "[0..2::int] = [0, 1, 2]" by (simp add: upto_rec1)
  moreover have "prime_count 5 = 3" "prime_count 20 = 8" unfolding prime_count_list by code_simp+
  moreover have "sieve_serial_W 3 20 = Some (Inr 6)" by code_simp
  ultimately show ?thesis by (simp add: valid_schedule_def)
qed

text \<open>
  C9. In the marking loop of the OpenMP file, for a base prime \<open>p\<close> and a segment
  \<open>3 \<le> low \<le> high\<close> whose buffer has \<open>odd_count = (high - low) / 2 + 1\<close> positions, the
  computed start is at least \<open>low\<close>, every marked value \<open>x = start + m \<sqdot> 2p \<le> high\<close> has its
  index \<open>(x - low) / 2\<close> in \<open>[0, odd_count)\<close>, the loop returns a buffer and no fault, and
  the guarded loop of the serial file returns the same buffer.
\<close>

theorem openmp_write_in_bounds:
  assumes "simple_sieve limit = Some (Inr base_primes)" "p \<in> set base_primes"
    and "3 \<le> low" "low \<le> high"
    and "int (length segment) = (high - low) sdiv 2 + 1"
  shows "low \<le> first_odd_multiple low p \<and>
         (\<forall>m. 0 \<le> m \<and> first_odd_multiple low p + m * (2 * p) \<le> high \<longrightarrow>
              0 \<le> (first_odd_multiple low p + m * (2 * p) - low) sdiv 2 \<and>
              (first_odd_multiple low p + m * (2 * p) - low) sdiv 2 < (high - low) sdiv 2 + 1) \<and>
         (\<exists>r. mark_odd_multiples_openmp p low high (first_odd_multiple low p) segment
                  = Some (Inr r) \<and>
              mark_odd_multiples_serial p low high ((high - low) sdiv 2 + 1)
                  (first_odd_multiple low p) segment = Some r)"
proof -
  have "prime_int p" using simple_sieve_members [OF assms(1,2)] .
  then have "0 < p" using prime_int_ge_2 [of p] by simp
  moreover have "0 \<le> low" using assms(3) by simp
  ultimately show ?thesis using openmp_marking_in_bounds [OF _ _ assms(4,5)] by blast
qed

theorem openmp_write_in_bounds_witness:
  "simple_sieve 3 = Some (Inr [2, 3]) \<and> (3::int) \<in> set [2, 3] \<and> (3::int) \<le> 3 \<and> (3::int) \<le> 10 \<and>
   int (length [True, True, True, True]) = (10 - 3) sdiv 2 + 1 \<and>
   3 \<le> first_odd_multiple 3 3 \<and>
   (\<exists>r. mark_odd_multiples_openmp 3 3 10 (first_odd_multiple 3 3) [True, True, True, True]
          = Some (Inr r) \<and>
        mark_odd_multiples_serial 3 3 10 4 (first_odd_multiple 3 3) [True, True, True, True]
          = Some r)"
proof -
  have s: "simple_sieve 3 = Some (Inr [2, 3])" by code_simp
  have v: "(10 - 3) sdiv 2 + 1 = (4::int)" by (simp add: signed_divide_int_def)
  have l: "int (length [True, True, True, True]) = (10 - 3) sdiv 2 + 1" unfolding v by simp
  have m: "(3::int) \<in> set [2, 3]" by simp
  show ?thesis using openmp_write_in_bounds [OF s m _ _ l] s l unfolding v by simp
qed

text \<open>
  C10. With first value 3 and the width \<open>SEG_SIZE = 2\<^sup>2\<^sup>0\<close>, every segment has an odd
  \<open>low = 3 + seg_id \<sqdot> SEG_SIZE\<close> and satisfies \<open>low \<le> high \<le> N\<close> (these are the segments of
  both loops); so, in both files, deleting any of the odd adjustment, the skip of a
  degenerate segment and the test \<^verbatim>\<open>num <= N\<close> leaves the returned count unchanged.
\<close>

theorem redundant_tests:
  assumes "valid_schedule T (num_segments SEG_SIZE N) schedule"
  shows "(\<forall>seg_id. 3 \<le> N \<and> 0 \<le> seg_id \<and> seg_id < num_segments SEG_SIZE N \<longrightarrow>
            odd (segment_low SEG_SIZE seg_id) \<and>
            segment_low SEG_SIZE seg_id \<le> segment_high SEG_SIZE N (segment_low SEG_SIZE seg_id) \<and>
            segment_high SEG_SIZE N (segment_low SEG_SIZE seg_id) \<le> N) \<and>
         (3 \<le> N \<longrightarrow>
            serial_plan SEG_SIZE N 3 [] =
            Some (map (\<lambda>k. (segment_low SEG_SIZE k,
                             segment_high SEG_SIZE N (segment_low SEG_SIZE k)))
                      [0..num_segments SEG_SIZE N - 1])) \<and>
         sieve_serial_opt adjust skip guard SEG_SIZE N = sieve_serial N \<and>
         sieve_openmp_opt adjust skip guard SEG_SIZE N T schedule = sieve_openmp N T schedule"
proof -
  have W: "1 \<le> SEG_SIZE" "even SEG_SIZE" "0 < SEG_SIZE" by (simp_all add: SEG_SIZE_def)
  have "odd (segment_low SEG_SIZE k) \<and>
        segment_low SEG_SIZE k \<le> segment_high SEG_SIZE N (segment_low SEG_SIZE k) \<and>
        segment_high SEG_SIZE N (segment_low SEG_SIZE k) \<le> N"
    if "3 \<le> N \<and> 0 \<le> k \<and> k < num_segments SEG_SIZE N" for k
  proof -
    have "segment_low SEG_SIZE k \<le> N" using segment_in_range [OF W(1), of N k] that by simp
    then show ?thesis
      using segment_bounds [OF W(1), of k N] odd_segment_low [OF W(2), of k] that by simp
  qed
  moreover have "serial_plan SEG_SIZE N 3 [] =
            Some (map (\<lambda>k. (segment_low SEG_SIZE k,
                             segment_high SEG_SIZE N (segment_low SEG_SIZE k)))
                      [0..num_segments SEG_SIZE N - 1])" if "3 \<le> N"
    using serial_plan_eq [OF W(1,2) that] .
  moreover have "sieve_serial_opt adjust skip guard SEG_SIZE N = sieve_serial N"
    unfolding sieve_serial_def by (rule sieve_serial_opt_eq [OF W(3,2)])
  moreover have "sieve_openmp_opt adjust skip guard SEG_SIZE N T schedule =
                 sieve_openmp N T schedule"
    unfolding sieve_openmp_def by (rule sieve_openmp_opt_eq [OF W(1,2) assms])
  ultimately show ?thesis by blast
qed

theorem redundant_tests_witness:
  "valid_schedule 2 (num_segments SEG_SIZE 3000000) [[1], [0, 2]] \<and>
   odd (segment_low SEG_SIZE 2) \<and>
   segment_low SEG_SIZE 2 \<le> segment_high SEG_SIZE 3000000 (segment_low SEG_SIZE 2) \<and>
   segment_high SEG_SIZE 3000000 (segment_low SEG_SIZE 2) \<le> 3000000 \<and>
   sieve_serial_opt False False False SEG_SIZE 3000000 = sieve_serial 3000000 \<and>
   sieve_openmp_opt False False False SEG_SIZE 3000000 2 [[1], [0, 2]] =
     sieve_openmp 3000000 2 [[1], [0, 2]]"
proof -
  have n: "num_segments SEG_SIZE 3000000 = 3"
    by (simp add: num_segments_def SEG_SIZE_def signed_divide_int_def)
  have u: "[0..2::int] = [0, 1, 2]" by (simp add: upto_rec1)
  have a: "valid_schedule 2 (num_segments SEG_SIZE 3000000) [[1], [0, 2]]"
    unfolding n by (simp add: valid_schedule_def u)
  have b: "(3::int) \<le> 3000000 \<and> (0::int) \<le> 2 \<and> 2 < num_segments SEG_SIZE 3000000"
    unfolding n by simp
  show ?thesis
    using redundant_tests [OF a, of False False False] a b by blast
qed

end
